theory Spec2Isabelle
  imports Complex_Main "HOL-Library.Multiset" "HOL-Library.AList"
begin

section \<open>The priority scheduler (src/lib/queue.js)\<close>

text \<open>
  The class \<open>Queue\<close> keeps five lanes \<open>priorityQueues[1..5]\<close>, a per-caller counter
  \<open>users\<close> (the field holds the object's own properties), the flags \<open>running\<close> and \<open>processingLock\<close>, and the numbers
  \<open>activeJobsCount\<close> and \<open>concurrency\<close>. An entry is the object literal that
  \<open>addJob\<close> pushes. The promise chains and timers that the JavaScript keeps in closures
  are made explicit: \<open>inflight\<close> holds the entries whose handler promise is pending,
  \<open>pacing\<close> holds the delays of the armed post-success timers,
  \<open>finishing\<close> counts the chains whose \<open>finally\<close> callback is due,
  \<open>backoff\<close> holds the armed retry timers, and \<open>emitted\<close> records the
  \<open>'job failed'\<close> events.
\<close>

record 'd entry =
  data :: 'd
  max_attempts :: int
  attempts :: int
  ip :: string
  priority :: nat

text \<open>The value a handler promise rejects with; only identity with
  \<open>errors.NoBotsAvailable\<close> is ever tested.\<close>

datatype 'e rejection = NoBotsAvailable | OtherError 'e

text \<open>A JavaScript number as stored in \<open>users\<close>: \<open>undefined--\<close> stores NaN.\<close>

datatype counter = Count int | NaN

text \<open>\<open>users\<close> is created as \<open>{}\<close>, an ordinary object: besides the properties
  assigned to it, it has through its prototype the properties of \<open>Object.prototype\<close>.
  These are their names. Each holds a function, except \<open>__proto__\<close>, an accessor whose
  getter returns \<open>Object.prototype\<close> itself and whose setter ignores a number. All of
  them are truthy and convert to the number NaN.\<close>

definition Object_prototype :: "string list" where
  "Object_prototype =
     [''constructor'', ''__defineGetter__'', ''__defineSetter__'', ''hasOwnProperty'',
      ''__lookupGetter__'', ''__lookupSetter__'', ''isPrototypeOf'', ''propertyIsEnumerable'',
      ''toString'', ''valueOf'', ''__proto__'', ''toLocaleString'']"

text \<open>What \<open>getUserQueuedAmt\<close> returns: a number, or the member of
  \<open>Object.prototype\<close> found under the name.\<close>

datatype amount = Amount int | Prototype_member

datatype js_error = TypeError

text \<open>A call either completes or throws; both leave a state behind.\<close>

datatype 's completion = Normal 's | Thrown js_error 's

record ('d, 'e) queue =
  priorityQueues :: "nat \<Rightarrow> 'd entry list"
  users :: "string \<Rightarrow> counter option"
  running :: bool
  activeJobsCount :: int
  concurrency :: int
  processingLock :: bool
  inflight :: "'d entry list"
  pacing :: "int list"
  finishing :: nat
  backoff :: "(real \<times> 'd entry) list"
  emitted :: "('d entry \<times> 'e rejection) list"

text \<open>The object \<open>priorityQueues\<close> has exactly the keys 1 to 5; indexing it with
  anything else yields \<open>undefined\<close>.\<close>

definition lane_defined :: "nat \<Rightarrow> bool" where
  "lane_defined p \<longleftrightarrow> 1 \<le> p \<and> p \<le> 5"

text \<open>The constructor. \<open>users\<close> starts without an own property; what it inherits is
  accounted for where the property is tested or read.\<close>

definition new_queue :: "('d, 'e) queue" where
  "new_queue = \<lparr>priorityQueues = (\<lambda>_. []), users = Map.empty, running = False,
     activeJobsCount = 0, concurrency = 0, processingLock = False, inflight = [],
     pacing = [], finishing = 0, backoff = [], emitted = []\<rparr>"

text \<open>\<open>size()\<close>: the sum of the lane lengths over \<open>Object.values(priorityQueues)\<close>.\<close>

definition lanes_size :: "(nat \<Rightarrow> 'a list) \<Rightarrow> nat" where
  "lanes_size pq = sum_list (map (\<lambda>p. length (pq p)) [1, 2, 3, 4, 5])"

definition size_q :: "('d, 'e) queue \<Rightarrow> nat" where
  "size_q q = lanes_size (priorityQueues q)"

text \<open>The inner \<open>for\<close> loop of \<open>checkQueue\<close>: scan the priorities in the given
  order, \<open>shift()\<close> the first non-empty lane and \<open>break\<close>. The loop of queue.js runs
  over 1..5.\<close>

fun scan_lanes :: "nat list \<Rightarrow> (nat \<Rightarrow> 'a list) \<Rightarrow> ('a \<times> (nat \<Rightarrow> 'a list)) option" where
  "scan_lanes [] pq = None"
| "scan_lanes (p # ps) pq =
     (case pq p of
        [] \<Rightarrow> scan_lanes ps pq
      | job # rest \<Rightarrow> Some (job, pq(p := rest)))"

definition dequeue :: "(nat \<Rightarrow> 'a list) \<Rightarrow> ('a \<times> (nat \<Rightarrow> 'a list)) option" where
  "dequeue pq = scan_lanes [1, 2, 3, 4, 5] pq"


subsection \<open>The dispatch loop terminates\<close>

lemma lanes_size_upd:
  assumes "lane_defined p"
  shows "lanes_size (pq(p := xs)) + length (pq p) = lanes_size pq + length xs"
proof -
  have "p = 1 \<or> p = 2 \<or> p = 3 \<or> p = 4 \<or> p = 5"
    using assms by (auto simp: lane_defined_def)
  then show ?thesis by (auto simp: lanes_size_def)
qed

lemma scan_lanes_Some:
  "scan_lanes ps pq = Some (job, pq') \<Longrightarrow>
     \<exists>p rest. p \<in> set ps \<and> pq p = job # rest \<and> pq' = pq(p := rest)"
proof (induction ps)
  case Nil
  then show ?case by simp
next
  case (Cons x xs)
  show ?case
  proof (cases "pq x")
    case Nil
    with Cons.prems have "scan_lanes xs pq = Some (job, pq')" by simp
    from Cons.IH[OF this] obtain p rest where
      h: "p \<in> set xs" "pq p = job # rest" "pq' = pq(p := rest)" by blast
    have "p \<in> set (x # xs)" using h(1) by simp
    then show ?thesis using h(2,3) by blast
  next
    case (Cons j rest)
    with Cons.prems have e: "job = j" "pq' = pq(x := rest)" by simp_all
    have "x \<in> set (x # xs)" by simp
    moreover have "pq x = job # rest" using Cons e(1) by simp
    ultimately show ?thesis using e(2) by blast
  qed
qed

lemma dequeue_Some:
  assumes "dequeue pq = Some (job, pq')"
  shows "\<exists>p rest. lane_defined p \<and> pq p = job # rest \<and> pq' = pq(p := rest)"
proof -
  from assms have "scan_lanes [1, 2, 3, 4, 5] pq = Some (job, pq')"
    by (simp only: dequeue_def)
  from scan_lanes_Some[OF this] obtain p rest where
    h: "p \<in> set [1, 2, 3, 4, 5]" "pq p = job # rest" "pq' = pq(p := rest)" by blast
  have "lane_defined p" using h(1) by (auto simp: lane_defined_def)
  then show ?thesis using h by blast
qed

lemma dequeue_size:
  assumes "dequeue pq = Some (job, pq')"
  shows "lanes_size pq = Suc (lanes_size pq')"
proof -
  from dequeue_Some[OF assms] obtain p rest where
    h: "lane_defined p" "pq p = job # rest" "pq' = pq(p := rest)" by blast
  have a: "lanes_size (pq(p := rest)) + length (job # rest) = lanes_size pq + length rest"
    using lanes_size_upd[OF h(1), of pq rest] by (simp only: h(2))
  have "lanes_size pq' = lanes_size (pq(p := rest))" by (simp only: h(3))
  with a show ?thesis by simp
qed

text \<open>The \<open>while\<close> loop of \<open>checkQueue\<close>. The handler is started for each entry
  taken; its promise settles later, so here the entry only joins \<open>inflight\<close>.\<close>

function checkQueue_loop :: "('d, 'e) queue \<Rightarrow> ('d, 'e) queue" where
  "checkQueue_loop q =
     (if running q \<and> size_q q > 0 \<and> activeJobsCount q < concurrency q then
        (case dequeue (priorityQueues q) of
           None \<Rightarrow> q
         | Some (job, pq') \<Rightarrow>
             checkQueue_loop (q\<lparr>priorityQueues := pq',
                                activeJobsCount := activeJobsCount q + 1,
                                inflight := inflight q @ [job]\<rparr>))
      else q)"
  by pat_completeness auto
termination
proof (relation "measure size_q")
  show "wf (measure size_q)" by simp
next
  fix q :: "('d, 'e) queue" and x2 x1 x2a
  assume "dequeue (priorityQueues q) = Some x2" "(x1, x2a) = x2"
  then have "dequeue (priorityQueues q) = Some (x1, x2a)" by simp
  from dequeue_size[OF this]
  show "(q\<lparr>priorityQueues := x2a, activeJobsCount := activeJobsCount q + 1,
           inflight := inflight q @ [x1]\<rparr>, q) \<in> measure size_q"
    by (simp add: size_q_def)
qed

declare checkQueue_loop.simps [simp del]

subsection \<open>The operations of the class\<close>

text \<open>\<open>checkQueue\<close>: guarded by \<open>processingLock\<close>, released in \<open>finally\<close>.\<close>

definition checkQueue :: "('d, 'e) queue \<Rightarrow> ('d, 'e) queue" where
  "checkQueue q =
     (if processingLock q then q
      else (checkQueue_loop (q\<lparr>processingLock := True\<rparr>))\<lparr>processingLock := False\<rparr>)"

text \<open>\<open>ip in this.users\<close>: true for an own property and for an inherited one.\<close>

definition has_user :: "(string \<Rightarrow> counter option) \<Rightarrow> string \<Rightarrow> bool" where
  "has_user us i \<longleftrightarrow> us i \<noteq> None \<or> i \<in> set Object_prototype"

text \<open>\<open>this.users[ip] = c\<close> for a number \<open>c\<close>: an own property is written or created,
  except under the name \<open>__proto__\<close>, where, unless the object has such an own property,
  the inherited setter runs and does nothing.\<close>

definition set_user :: "string \<Rightarrow> counter \<Rightarrow> (string \<Rightarrow> counter option) \<Rightarrow> (string \<Rightarrow> counter option)" where
  "set_user i c us = (if i = ''__proto__'' \<and> us i = None then us else us(i \<mapsto> c))"

text \<open>The new value of \<open>users[ip]++\<close> and \<open>users[ip]--\<close>, from the own property if there
  is one: a number is counted; \<open>undefined\<close> and an inherited function or object convert
  to NaN.\<close>

fun incr :: "counter option \<Rightarrow> counter" where
  "incr (Some (Count n)) = Count (n + 1)"
| "incr _ = NaN"

fun decr :: "counter option \<Rightarrow> counter" where
  "decr (Some (Count n)) = Count (n - 1)"
| "decr _ = NaN"

text \<open>\<open>this.users[job.ip]--; if (this.users[job.ip] === 0) delete this.users[job.ip]\<close>\<close>

definition userDone :: "string \<Rightarrow> (string \<Rightarrow> counter option) \<Rightarrow> (string \<Rightarrow> counter option)" where
  "userDone i us = (let c = decr (us i) in if c = Count 0 then us(i := None) else set_user i c us)"

text \<open>\<open>getUserQueuedAmt(ip)\<close>: \<open>this.users[ip] || 0\<close>. NaN and 0 are falsy; without an
  own property the read finds the inherited member, which is truthy, or \<open>undefined\<close>.\<close>

definition getUserQueuedAmt :: "('d, 'e) queue \<Rightarrow> string \<Rightarrow> amount" where
  "getUserQueuedAmt q i =
     (case users q i of
        Some (Count n) \<Rightarrow> Amount n
      | Some NaN \<Rightarrow> Amount 0
      | None \<Rightarrow> if i \<in> set Object_prototype then Prototype_member else Amount 0)"

text \<open>The body of the \<open>for\<close> loop of \<open>addJob\<close>, once per remaining link: push the new
  entry on the lane, count it, call \<open>checkQueue\<close>. Pushing on an undefined lane throws.\<close>

fun addJob_links :: "string \<Rightarrow> int \<Rightarrow> nat \<Rightarrow> 'd list \<Rightarrow> ('d, 'e) queue \<Rightarrow> ('d, 'e) queue completion" where
  "addJob_links i m p [] q = Normal q"
| "addJob_links i m p (link # links) q =
     (if \<not> lane_defined p then Thrown TypeError q
      else
        let q1 = q\<lparr>priorityQueues := (priorityQueues q)
                     (p := priorityQueues q p @
                        [\<lparr>data = link, max_attempts = m, attempts = 0, ip = i, priority = p\<rparr>])\<rparr>;
            q2 = q1\<lparr>users := set_user i (incr (users q1 i)) (users q1)\<rparr>
        in addJob_links i m p links (checkQueue q2))"

text \<open>\<open>addJob(job, max_attempts, priority)\<close>; the job contributes its \<open>ip\<close> and its
  remaining links. The counter is set to 0 only when \<open>ip in this.users\<close> is false.\<close>

definition addJob :: "string \<Rightarrow> 'd list \<Rightarrow> int \<Rightarrow> nat \<Rightarrow> ('d, 'e) queue \<Rightarrow> ('d, 'e) queue completion" where
  "addJob i links m p q =
     addJob_links i m p links
       (if \<not> has_user (users q) i then q\<lparr>users := set_user i (Count 0) (users q)\<rparr> else q)"

text \<open>The \<open>then\<close> callback: the handler resolved with \<open>delay\<close>.\<close>

definition then_callback :: "'d entry \<Rightarrow> int option \<Rightarrow> ('d, 'e) queue \<Rightarrow> ('d, 'e) queue" where
  "then_callback job delay q =
     q\<lparr>users := userDone (ip job) (users q),
       pacing := pacing q @ [case delay of None \<Rightarrow> 0 | Some d \<Rightarrow> d]\<rparr>"

text \<open>The \<open>catch\<close> callback: the handler rejected with \<open>err\<close>. The listeners of
  \<open>'job failed'\<close> are taken to return normally, so \<open>emit\<close> only records the event.\<close>

definition count_attempt :: "'e rejection \<Rightarrow> 'd entry \<Rightarrow> 'd entry" where
  "count_attempt err job = (if err \<noteq> NoBotsAvailable then job\<lparr>attempts := attempts job + 1\<rparr> else job)"

definition backoffDelay :: "'d entry \<Rightarrow> real" where
  "backoffDelay job = 1000 * 2 powi (attempts job - 1)"

definition catch_callback :: "'d entry \<Rightarrow> 'e rejection \<Rightarrow> ('d, 'e) queue \<Rightarrow> ('d, 'e) queue" where
  "catch_callback job0 err q =
     (let job = count_attempt err job0 in
      if attempts job \<ge> max_attempts job then
        q\<lparr>emitted := emitted q @ [(job, err)], users := userDone (ip job) (users q)\<rparr>
      else
        q\<lparr>backoff := backoff q @ [(backoffDelay job, job)]\<rparr>)"

text \<open>The timer armed by the \<open>catch\<close> callback: \<open>unshift\<close> on the entry's lane, then
  \<open>checkQueue\<close>.\<close>

definition requeue :: "'d entry \<Rightarrow> ('d, 'e) queue \<Rightarrow> ('d, 'e) queue" where
  "requeue job q =
     q\<lparr>priorityQueues := (priorityQueues q)(priority job := job # priorityQueues q (priority job))\<rparr>"

definition backoff_callback :: "'d entry \<Rightarrow> ('d, 'e) queue \<Rightarrow> ('d, 'e) queue completion" where
  "backoff_callback job q =
     (if lane_defined (priority job) then Normal (checkQueue (requeue job q))
      else Thrown TypeError q)"

text \<open>The \<open>finally\<close> callback.\<close>

definition finally_callback :: "('d, 'e) queue \<Rightarrow> ('d, 'e) queue" where
  "finally_callback q =
     (let q1 = q\<lparr>activeJobsCount := activeJobsCount q - 1\<rparr>
      in if running q1 \<and> size_q q1 > 0 then checkQueue q1 else q1)"

definition start :: "('d, 'e) queue \<Rightarrow> ('d, 'e) queue" where
  "start q = (if \<not> running q then checkQueue (q\<lparr>running := True\<rparr>) else q)"

definition pause :: "('d, 'e) queue \<Rightarrow> ('d, 'e) queue" where
  "pause q = (if running q then q\<lparr>running := False\<rparr> else q)"

text \<open>\<open>process(concurrency, controller, handler)\<close> and the body of its 50 ms interval,
  given what \<open>controller.getReadyAmount()\<close> returns.\<close>

definition process :: "int \<Rightarrow> ('d, 'e) queue \<Rightarrow> ('d, 'e) queue" where
  "process c q = start (q\<lparr>concurrency := c\<rparr>)"

definition tick :: "int \<Rightarrow> ('d, 'e) queue \<Rightarrow> ('d, 'e) queue" where
  "tick ready q =
     (let old = concurrency q; q1 = q\<lparr>concurrency := ready\<rparr>
      in if ready > old then (checkQueue ^^ nat (ready - old)) q1 else q1)"

subsection \<open>Runs of the scheduler\<close>

text \<open>What can happen to a queue: a call of its interface, the settling of a pending
  handler promise, or the firing of an armed timer. An event that cannot happen in a state
  (no such promise, no such timer) yields \<open>None\<close>. A call that throws leaves the state
  it had reached.\<close>

datatype ('d, 'e) event =
    AddJob string "'d list" int nat
  | Process int
  | Tick int
  | Start
  | Pause
  | Resolved nat "int option"
  | Rejected nat "'e rejection"
  | DelayElapsed nat
  | Finally
  | BackoffElapsed nat

fun state_of :: "'s completion \<Rightarrow> 's" where
  "state_of (Normal s) = s"
| "state_of (Thrown e s) = s"

definition remove_nth :: "nat \<Rightarrow> 'a list \<Rightarrow> 'a list" where
  "remove_nth k xs = take k xs @ drop (Suc k) xs"

fun fire :: "('d, 'e) event \<Rightarrow> ('d, 'e) queue \<Rightarrow> ('d, 'e) queue option" where
  "fire (AddJob i links m p) q = Some (state_of (addJob i links m p q))"
| "fire (Process c) q = Some (process c q)"
| "fire (Tick n) q = Some (tick n q)"
| "fire Start q = Some (start q)"
| "fire Pause q = Some (pause q)"
| "fire (Resolved k delay) q =
     (if k < length (inflight q)
      then Some (then_callback (inflight q ! k) delay (q\<lparr>inflight := remove_nth k (inflight q)\<rparr>))
      else None)"
| "fire (Rejected k err) q =
     (if k < length (inflight q)
      then Some ((catch_callback (inflight q ! k) err (q\<lparr>inflight := remove_nth k (inflight q)\<rparr>))
                   \<lparr>finishing := Suc (finishing q)\<rparr>)
      else None)"
| "fire (DelayElapsed k) q =
     (if k < length (pacing q)
      then Some (q\<lparr>pacing := remove_nth k (pacing q), finishing := Suc (finishing q)\<rparr>)
      else None)"
| "fire Finally q =
     (if 0 < finishing q then Some (finally_callback (q\<lparr>finishing := finishing q - 1\<rparr>)) else None)"
| "fire (BackoffElapsed k) q =
     (if k < length (backoff q)
      then Some (state_of (backoff_callback (snd (backoff q ! k)) (q\<lparr>backoff := remove_nth k (backoff q)\<rparr>)))
      else None)"

inductive reachable :: "('d, 'e) queue \<Rightarrow> bool" where
  initial: "reachable new_queue"
| step: "reachable q \<Longrightarrow> fire e q = Some q' \<Longrightarrow> reachable q'"

text \<open>The entries the scheduler still owes an answer for: waiting in a lane, handed to
  the handler, or waiting for their retry timer.\<close>

definition waiting :: "(nat \<Rightarrow> 'a list) \<Rightarrow> 'a list" where
  "waiting pq = pq 1 @ pq 2 @ pq 3 @ pq 4 @ pq 5"

definition outstanding :: "('d, 'e) queue \<Rightarrow> 'd entry list" where
  "outstanding q = waiting (priorityQueues q) @ inflight q @ map snd (backoff q)"

definition count_ip :: "string \<Rightarrow> 'd entry list \<Rightarrow> nat" where
  "count_ip i es = length (filter (\<lambda>e. ip e = i) es)"

text \<open>The accounting invariant: the counter of every caller whose address is not the name
  of a member of \<open>Object.prototype\<close> is a number, equal to the number of that caller's
  outstanding entries (an absent counter meaning none); under the name of such a member no
  number is ever stored but NaN; and every outstanding entry sits on, or will return to,
  one of the five lanes.\<close>

fun acct :: "counter option \<Rightarrow> nat \<Rightarrow> bool" where
  "acct None n = (n = 0)"
| "acct (Some (Count c)) n = (c = int n)"
| "acct (Some NaN) n = False"

definition accounted :: "('d, 'e) queue \<Rightarrow> bool" where
  "accounted q \<longleftrightarrow>
     (\<forall>i. i \<notin> set Object_prototype \<longrightarrow> acct (users q i) (count_ip i (outstanding q)))
     \<and> (\<forall>i c. i \<in> set Object_prototype \<longrightarrow> users q i \<noteq> Some (Count c))
     \<and> (\<forall>e \<in> set (outstanding q). lane_defined (priority e))"

text \<open>The number of rounds of the \<open>while\<close> loop of \<open>checkQueue\<close>: it goes on while the
  queue runs, an entry waits and a slot is free.\<close>

definition dispatch_count :: "('d, 'e) queue \<Rightarrow> nat" where
  "dispatch_count q =
     (if running q then min (size_q q) (nat (concurrency q - activeJobsCount q)) else 0)"

text \<open>Every waiting entry sits on the lane that its \<open>priority\<close> field names.\<close>

definition lanes_by_priority :: "(nat \<Rightarrow> 'd entry list) \<Rightarrow> bool" where
  "lanes_by_priority pq \<longleftrightarrow> (\<forall>p. lane_defined p \<longrightarrow> (\<forall>e \<in> set (pq p). priority e = p))"

text \<open>A run: the events fire one after the other.\<close>

fun fire_all :: "('d, 'e) event list \<Rightarrow> ('d, 'e) queue \<Rightarrow> ('d, 'e) queue option" where
  "fire_all [] q = Some q"
| "fire_all (e # es) q = (case fire e q of None \<Rightarrow> None | Some q' \<Rightarrow> fire_all es q')"

text \<open>A concrete run, used to exercise the theorems: one ready bot, then one request of
  caller 9.9.9.9 with the given retry budget on lane 4.\<close>

definition one_request :: "int \<Rightarrow> (string, string) queue" where
  "one_request m = state_of (addJob ''9.9.9.9'' [''L''] m 4 (process 1 new_queue))"

definition one_request_rejected :: "(string, string) queue" where
  "one_request_rejected = the (fire (Rejected 0 (OtherError ''Timeout'')) (one_request 3))"

text \<open>A paused queue with two entries of one caller on lane 3 and one entry of another
  on lane 5.\<close>

definition three_waiting :: "(string, string) queue" where
  "three_waiting = state_of (addJob ''8.8.8.8'' [''z''] 3 5
                     (state_of (addJob ''9.9.9.9'' [''x'', ''y''] 3 3 new_queue)))"

text \<open>A run in which both entries of a job are retried: the job's two links are enqueued
  on lane 3, two bots are ready and take them, both handlers reject with
  \<open>NoBotsAvailable\<close>, the interval finds no bot ready, both retry timers fire, and the
  interval finds one bot ready again.\<close>

definition two_enqueued :: "(string, string) queue" where
  "two_enqueued = state_of (addJob ''9.9.9.9'' [''X'', ''R''] 3 3 new_queue)"

definition overtaking_run :: "(string, string) event list" where
  "overtaking_run =
     [Process 2, Rejected 0 NoBotsAvailable, Finally, Rejected 0 NoBotsAvailable, Finally,
      Tick 0, BackoffElapsed 0, BackoffElapsed 0, Tick 1]"

definition overtaken :: "(string, string) queue" where
  "overtaken = the (fire_all overtaking_run two_enqueued)"

text \<open>The same run for a caller whose address reads \<open>constructor\<close> (with
  \<open>trust proxy\<close> enabled the address is the one the request's forwarding header
  names), and its state after the handler has resolved.\<close>

definition constructor_request :: "(string, string) queue" where
  "constructor_request = state_of (addJob ''constructor'' [''L''] 3 4 (process 1 new_queue))"

definition constructor_resolved :: "(string, string) queue" where
  "constructor_resolved = the (fire (Resolved 0 None) constructor_request)"

section \<open>The result cache\<close>

text \<open>The fields \<open>a\<close>, \<open>d\<close>, \<open>s\<close>, \<open>m\<close> of a link or an item, each a string
  or absent. An item is any record that extends them.\<close>

record params =
  p_a :: "string option"
  p_d :: "string option"
  p_s :: "string option"
  p_m :: "string option"

text \<open>A cache entry \<open>{item, price, timestamp}\<close>. A JavaScript \<open>Map\<close> is kept as
  the list of its entries in iteration order: \<open>set\<close> on a present key replaces the
  value where it stands, on a new key it appends (\<open>AList.update\<close>); \<open>delete\<close>
  removes the key (\<open>AList.delete\<close>); \<open>keys().next().value\<close> is the first key.\<close>

record 'i cached =
  item :: 'i
  price :: "int option"
  timestamp :: int

subsection \<open>The bounded cache (class MemoryCache, fourth document of src/unnamed/part_000)\<close>

record ('k, 'i) MemoryCache =
  cache :: "('k \<times> 'i cached) list"
  maxEntries :: int

definition new_MemoryCache :: "int \<Rightarrow> ('k, 'i) MemoryCache" where
  "new_MemoryCache n = \<lparr>cache = [], maxEntries = n\<rparr>"

text \<open>\<open>generateKey(item)\<close> of this class returns \<open>item.a\<close>.\<close>

definition generateKey_asset :: "'x params_scheme \<Rightarrow> string option" where
  "generateKey_asset it = p_a it"

text \<open>\<open>price || null\<close>\<close>

definition or_null :: "int option \<Rightarrow> int option" where
  "or_null p = (case p of None \<Rightarrow> None | Some n \<Rightarrow> if n = 0 then None else Some n)"

text \<open>\<open>insertItemData(item, price)\<close>: when \<open>cache.size >= maxEntries\<close>, delete the
  first key of the map (nothing to delete in an empty map); then \<open>set\<close>. The clock
  \<open>Date.now()\<close> is the argument \<open>now\<close>.\<close>

definition evict_oldest :: "('k, 'i) MemoryCache \<Rightarrow> ('k \<times> 'i cached) list" where
  "evict_oldest c =
     (if int (length (cache c)) \<ge> maxEntries c then
        (case cache c of [] \<Rightarrow> [] | (oldestKey, _) # _ \<Rightarrow> AList.delete oldestKey (cache c))
      else cache c)"

definition insertItemData ::
  "'x params_scheme \<Rightarrow> int option \<Rightarrow> int \<Rightarrow> (string option, 'x params_scheme) MemoryCache
     \<Rightarrow> (string option, 'x params_scheme) MemoryCache" where
  "insertItemData it pr now c =
     c\<lparr>cache := AList.update (generateKey_asset it)
                   \<lparr>item = it, price = or_null pr, timestamp = now\<rparr> (evict_oldest c)\<rparr>"

text \<open>\<open>updateItemPrice(assetId, price)\<close> and \<open>cleanup()\<close>.\<close>

definition updateItemPrice ::
  "'k \<Rightarrow> int option \<Rightarrow> ('k, 'i) MemoryCache \<Rightarrow> ('k, 'i) MemoryCache" where
  "updateItemPrice assetId pr c =
     (case map_of (cache c) assetId of
        None \<Rightarrow> c
      | Some e \<Rightarrow> c\<lparr>cache := AList.update assetId (e\<lparr>price := pr\<rparr>) (cache c)\<rparr>)"

definition cleanup :: "int \<Rightarrow> ('k, 'i) MemoryCache \<Rightarrow> ('k, 'i) MemoryCache" where
  "cleanup now c = c\<lparr>cache := filter (\<lambda>(k, e). \<not> now - timestamp e > 60 * 60 * 1000) (cache c)\<rparr>"

text \<open>The caches that \<open>new MemoryCache(n)\<close> and calls of its methods produce.\<close>

inductive built :: "int \<Rightarrow> (string option, 'x params_scheme) MemoryCache \<Rightarrow> bool" where
  fresh: "built n (new_MemoryCache n)"
| insert: "built n c \<Longrightarrow> built n (insertItemData it pr now c)"
| reprice: "built n c \<Longrightarrow> built n (updateItemPrice k pr c)"
| sweep: "built n c \<Longrightarrow> built n (cleanup now c)"

text \<open>A sequence of \<open>insertItemData\<close> calls, each with its item, price and clock.\<close>

fun insert_all ::
  "('x params_scheme \<times> int option \<times> int) list \<Rightarrow> (string option, 'x params_scheme) MemoryCache
     \<Rightarrow> (string option, 'x params_scheme) MemoryCache" where
  "insert_all [] c = c"
| "insert_all ((it, pr, now) # rest) c = insert_all rest (insertItemData it pr now c)"

definition key_of :: "'x params_scheme \<times> int option \<times> int \<Rightarrow> string option" where
  "key_of x = generateKey_asset (fst x)"

text \<open>The entry inserted longest ago, as the timestamps written by
  \<open>insertItemData\<close> tell: the reading of "least recently inserted" by time of
  insertion.\<close>

definition least_recently_inserted :: "'k \<Rightarrow> ('k, 'i) MemoryCache \<Rightarrow> bool" where
  "least_recently_inserted k c \<longleftrightarrow>
     (\<exists>e. (k, e) \<in> set (cache c) \<and> (\<forall>(k', e') \<in> set (cache c). timestamp e \<le> timestamp e'))"

subsection \<open>The cache of src/lib/memory_cache.js\<close>

text \<open>There the map is keyed by
  \<^verbatim>\<open>`${item.a || ''}_${item.d || ''}_${item.s || item.m || ''}`\<close>; an empty string is
  falsy.\<close>

definition or_empty :: "string option \<Rightarrow> string" where
  "or_empty x = (case x of Some (c # cs) \<Rightarrow> c # cs | _ \<Rightarrow> [])"

definition generateKey :: "'x params_scheme \<Rightarrow> string" where
  "generateKey it =
     or_empty (p_a it) @ ''_'' @ or_empty (p_d it) @ ''_'' @
     (case p_s it of Some (c # cs) \<Rightarrow> c # cs | _ \<Rightarrow> or_empty (p_m it))"

text \<open>An element of the array that \<open>getItemData\<close> loops over is any value:
  \<open>null\<close> or \<open>undefined\<close>; an object with a \<open>getParams\<close> method (an InspectURL
  object, whose class is outside the sources), given with what the call returns, the
  object of the link's fields or \<open>None\<close> for \<open>null\<close> and \<open>undefined\<close>; or any other
  value, which is itself read as the object of fields (a primitive has none). The fields
  are strings or absent, as they come out of an inspect link.\<close>

datatype 'p link = Nullish | InspectURL "'p option" | Plain 'p

text \<open>\<open>link.getParams ? link.getParams() : link\<close>: reading a property of \<open>null\<close> or
  \<open>undefined\<close> throws.\<close>

fun getParams_or_self :: "'p link \<Rightarrow> js_error + 'p option" where
  "getParams_or_self Nullish = Inl TypeError"
| "getParams_or_self (InspectURL r) = Inr r"
| "getParams_or_self (Plain p) = Inr (Some p)"

text \<open>\<open>this.generateKey(params)\<close>: so does reading \<open>item.a\<close> there.\<close>

fun generateKey_of :: "'x params_scheme option \<Rightarrow> js_error + string" where
  "generateKey_of None = Inl TypeError"
| "generateKey_of (Some it) = Inr (generateKey it)"

text \<open>The argument of \<open>getItemData\<close> may be anything: an array, another iterable (a
  string, a Set) given with the values it yields, or a value that cannot be iterated
  (\<open>undefined\<close>, \<open>null\<close>, a number, a plain object).\<close>

datatype 'a js_arg = NotIterable | Iterable "'a list" | Array "'a list"

text \<open>\<open>getItemData(links)\<close> of memory_cache.js: only an array is looped over. The call
  returns a resolved promise (\<open>Inr\<close>) or throws (\<open>Inl\<close>).\<close>

fun getItemData_loop ::
  "(string \<times> 'i cached) list \<Rightarrow> 'x params_scheme link list \<Rightarrow> 'i list \<Rightarrow> js_error + 'i list" where
  "getItemData_loop c [] results = Inr results"
| "getItemData_loop c (l # ls) results =
     (case getParams_or_self l of
        Inl e \<Rightarrow> Inl e
      | Inr params \<Rightarrow>
          (case generateKey_of params of
             Inl e \<Rightarrow> Inl e
           | Inr key \<Rightarrow>
               (case map_of c key of
                  Some cachedData \<Rightarrow> getItemData_loop c ls (results @ [item cachedData])
                | None \<Rightarrow> getItemData_loop c ls results)))"

fun getItemData ::
  "(string \<times> 'i cached) list \<Rightarrow> 'x params_scheme link js_arg \<Rightarrow> js_error + 'i list" where
  "getItemData c (Array links) = getItemData_loop c links []"
| "getItemData c NotIterable = Inr []"
| "getItemData c (Iterable xs) = Inr []"

text \<open>\<open>getItemData(keys)\<close> of the bounded class loops over its argument without a
  test, which throws when the argument cannot be iterated. A found entry is answered as
  \<open>Object.assign({}, entry.item, {price: entry.price})\<close>, kept here as the pair of the
  item and the price.\<close>

fun getItemData_keys_loop ::
  "('k \<times> 'i cached) list \<Rightarrow> 'k list \<Rightarrow> ('i \<times> int option) list \<Rightarrow> ('i \<times> int option) list" where
  "getItemData_keys_loop c [] result = result"
| "getItemData_keys_loop c (key # keys) result =
     (case map_of c key of
        Some entry \<Rightarrow> getItemData_keys_loop c keys (result @ [(item entry, price entry)])
      | None \<Rightarrow> getItemData_keys_loop c keys result)"

fun getItemData_keys ::
  "('k, 'i) MemoryCache \<Rightarrow> 'k js_arg \<Rightarrow> js_error + ('i \<times> int option) list" where
  "getItemData_keys c NotIterable = Inl TypeError"
| "getItemData_keys c (Iterable keys) = Inr (getItemData_keys_loop (cache c) keys [])"
| "getItemData_keys c (Array keys) = Inr (getItemData_keys_loop (cache c) keys [])"

text \<open>The object of fields that an element stands for, if it stands for one, and the
  cached item found under its key.\<close>

fun fields_of :: "'p link \<Rightarrow> 'p option" where
  "fields_of Nullish = None"
| "fields_of (InspectURL r) = r"
| "fields_of (Plain p) = Some p"

definition cached_item :: "(string \<times> 'i cached) list \<Rightarrow> 'x params_scheme link \<Rightarrow> 'i option" where
  "cached_item c l = Option.bind (fields_of l) (\<lambda>p. map_option item (map_of c (generateKey p)))"

text \<open>\<open>insertItemData\<close> of memory_cache.js: a plain \<open>set\<close>, no bound.\<close>

definition insertItemData_unbounded ::
  "'x params_scheme \<Rightarrow> int option \<Rightarrow> int \<Rightarrow> (string \<times> 'x params_scheme cached) list
     \<Rightarrow> (string \<times> 'x params_scheme cached) list" where
  "insertItemData_unbounded it pr now c =
     AList.update (generateKey it) \<lparr>item = it, price = or_null pr, timestamp = now\<rparr> c"

text \<open>Concrete caches, used to exercise the theorems.\<close>

definition asset :: "string \<Rightarrow> params" where
  "asset x = \<lparr>p_a = Some x, p_d = Some ''1'', p_s = Some ''7'', p_m = Some ''0''\<rparr>"

definition three_assets :: "(string option, params) MemoryCache" where
  "three_assets = insert_all [(asset ''A'', None, 1), (asset ''B'', None, 2), (asset ''C'', None, 3)]
                    (new_MemoryCache 3)"

definition refreshed_asset :: "(string option, params) MemoryCache" where
  "refreshed_asset = insert_all [(asset ''A'', None, 1), (asset ''B'', None, 2),
                       (asset ''A'', None, 3), (asset ''C'', None, 4)] (new_MemoryCache 3)"

section \<open>The HTTP entry point (the three revisions of the entry file in src/unnamed/part_000)\<close>

text \<open>A JavaScript value as far as the code inspects it; \<open>Other\<close> stands for an object
  or array, which is truthy and strictly equal to nothing that arrives from elsewhere.\<close>

datatype jsval = Undefined | Null | Bool bool | Num real | Str string | Other

fun truthy :: "jsval \<Rightarrow> bool" where
  "truthy Undefined = False"
| "truthy Null = False"
| "truthy (Bool b) = b"
| "truthy (Num n) = (n \<noteq> 0)"
| "truthy (Str s) = (s \<noteq> [])"
| "truthy Other = True"

definition strict_eq :: "jsval \<Rightarrow> jsval \<Rightarrow> bool" where
  "strict_eq x y \<longleftrightarrow> x = y \<and> x \<noteq> Other"

text \<open>The configuration read by the handlers: \<open>CONFIG.api_key\<close>,
  \<open>CONFIG.bot_settings.max_attempts\<close>, \<open>CONFIG.max_simultaneous_requests\<close> (after its
  default of 1 has been filled in) and \<open>CONFIG.max_queue_size\<close>.\<close>

record config =
  api_key :: jsval
  bot_max_attempts :: int
  max_simultaneous_requests :: int
  max_queue_size :: "int option"

text \<open>A request: \<open>req.body.apiKey\<close>, the result of \<open>parseInt(req.body.priority)\<close>
  (\<open>None\<close> for NaN), the caller's address, and the rest of the body. The classes
  InspectURL and Job and the module utils are outside the sources: the handlers take as
  parameters \<open>parse\<close>, which yields the link built from the body, or \<open>None\<close> when no
  link is built or \<open>getParams()\<close> is falsy, and \<open>price_of\<close>, the price that
  \<open>canSubmitPrice\<close> lets through. A fresh job with one added link has that link, with
  its price, as its one remaining link.\<close>

record 'b request =
  apiKey :: jsval
  priority_parsed :: "int option"
  req_ip :: string
  body :: 'b

datatype error_name = InvalidInspect | GenericBad | SteamOffline | MaxRequests | MaxQueueSize

text \<open>What the handler has answered when it returns: \<open>res.status(n).json({error, code})\<close>,
  \<open>errors.X.respond(res)\<close>, or nothing yet (the job answers later).\<close>

datatype response =
    Json int string int
  | Respond error_name
  | Pending

text \<open>\<open>app.post('/inspect')\<close> of the first two revisions (lines 148-193 and 460-505).\<close>

definition post_inspect_keyed ::
  "config \<Rightarrow> ('b \<Rightarrow> 'l option) \<Rightarrow> ('b \<Rightarrow> 'l \<Rightarrow> int option) \<Rightarrow> 'b request
     \<Rightarrow> ('l \<times> int option, 'e) queue \<Rightarrow> response \<times> ('l \<times> int option, 'e) queue" where
  "post_inspect_keyed cfg parse price_of req q =
     (if \<not> truthy (apiKey req) \<or> \<not> strict_eq (apiKey req) (api_key cfg) then
        (Json 403 ''Invalid API key'' 8, q)
      else
        let p0 = (case priority_parsed req of None \<Rightarrow> 4 | Some n \<Rightarrow> if n = 0 then 4 else n);
            p = (if p0 < 1 \<or> p0 > 5 then 4 else p0)
        in case parse (body req) of
             None \<Rightarrow> (Respond InvalidInspect, q)
           | Some link \<Rightarrow>
               (case addJob (req_ip req) [(link, price_of (body req) link)]
                       (bot_max_attempts cfg) (nat p) q of
                  Normal q' \<Rightarrow> (Pending, q')
                | Thrown e q' \<Rightarrow> (Respond GenericBad, q')))"

text \<open>\<open>app.post('/inspect')\<close> of the third revision (lines 796-829), the one that also
  serves \<open>/relog\<close>.\<close>

definition post_inspect ::
  "config \<Rightarrow> ('b \<Rightarrow> 'l option) \<Rightarrow> ('b \<Rightarrow> 'l \<Rightarrow> int option) \<Rightarrow> 'b request
     \<Rightarrow> ('l \<times> int option, 'e) queue \<Rightarrow> response \<times> ('l \<times> int option, 'e) queue" where
  "post_inspect cfg parse price_of req q =
     (let p = (case priority_parsed req of
                 None \<Rightarrow> 4
               | Some n \<Rightarrow> if n < 1 \<or> n > 5 then 4 else n)
      in case parse (body req) of
           None \<Rightarrow> (Respond InvalidInspect, q)
         | Some link \<Rightarrow>
             (case addJob (req_ip req) [(link, price_of (body req) link)]
                     (bot_max_attempts cfg) (nat p) q of
                Normal q' \<Rightarrow> (Pending, q')
              | Thrown e q' \<Rightarrow> (Respond GenericBad, q')))"

text \<open>\<open>handleJob(job)\<close> after its cache phase, which answers the cached links of the job;
  \<open>remaining\<close> is what \<open>job.getRemainingLinks()\<close> then holds and \<open>hasBotOnline\<close> what
  \<open>botController.hasBotOnline()\<close> returns. When \<open>getUserQueuedAmt\<close> returns a function
  or an object, \<open>+\<close> concatenates strings and the comparison of that string with the limit
  is false. No route calls this function: its only call is in the \<open>/bulk\<close> route, which
  is commented out.\<close>

definition handleJob ::
  "config \<Rightarrow> bool \<Rightarrow> string \<Rightarrow> 'd list \<Rightarrow> ('d, 'e) queue \<Rightarrow> response \<times> ('d, 'e) queue" where
  "handleJob cfg hasBotOnline i remaining q =
     (if \<not> hasBotOnline then (Respond SteamOffline, q)
      else if max_simultaneous_requests cfg > 0
              \<and> (case getUserQueuedAmt q i of
                    Amount n \<Rightarrow> n + int (length remaining) > max_simultaneous_requests cfg
                  | Prototype_member \<Rightarrow> False)
      then (Respond MaxRequests, q)
      else if (case max_queue_size cfg of None \<Rightarrow> False
               | Some mq \<Rightarrow> mq > 0 \<and> int (size_q q) + int (length remaining) > mq)
      then (Respond MaxQueueSize, q)
      else if length remaining > 0 then
        (case addJob i remaining (bot_max_attempts cfg) 3 q of
           Normal q' \<Rightarrow> (Pending, q')
         | Thrown e q' \<Rightarrow> (Pending, q'))
      else (Pending, q))"

text \<open>A concrete situation: two ready bots, limit 2, and caller 9.9.9.9 with two entries
  in flight, who sends a third request.\<close>

definition two_in_flight :: "(string \<times> int option, string) queue" where
  "two_in_flight = state_of (addJob ''9.9.9.9'' [(''L1'', None), (''L2'', None)] 3 4 (process 2 new_queue))"

definition demo_config :: config where
  "demo_config = \<lparr>api_key = Str ''secret'', bot_max_attempts = 3, max_simultaneous_requests = 2,
                   max_queue_size = Some 100\<rparr>"

definition demo_request :: "jsval \<Rightarrow> string request" where
  "demo_request k = \<lparr>apiKey = k, priority_parsed = Some 1, req_ip = ''9.9.9.9'', body = ''L3''\<rparr>"

section \<open>The bot's local dispatcher (class Bot of src/lib/bot.js)\<close>

text \<open>A JavaScript object as the list of its properties; reading an absent property
  yields \<open>undefined\<close>.\<close>

type_synonym obj = "(string \<times> jsval) list"

definition get_prop :: "obj \<Rightarrow> string \<Rightarrow> jsval" where
  "get_prop ob k = (case map_of ob k of None \<Rightarrow> Undefined | Some v \<Rightarrow> v)"

definition set_prop :: "string \<Rightarrow> jsval \<Rightarrow> obj \<Rightarrow> obj" where
  "set_prop k v ob = AList.update k v ob"

definition delete_prop :: "string \<Rightarrow> obj \<Rightarrow> obj" where
  "delete_prop k ob = AList.delete k ob"

text \<open>The payload of an \<open>inspectItemInfo\<close> event as the coordinator library decodes it:
  scalar properties (among them \<open>itemid\<close>, \<open>paintwear\<close>, \<open>paintseed\<close>) and
  \<open>stickers\<close>, absent or an array of objects. \<open>item_data\<close> is the object
  \<open>{iteminfo, delay}\<close> that the bot resolves the inspect with.\<close>

record iteminfo =
  props :: obj
  stickers :: "obj list option"

record item_data =
  iteminfo :: iteminfo
  delay :: int

text \<open>An entry of \<open>requestQueue\<close>: the fields \<open>s, a, d, m, time\<close> of
  \<open>requestData\<close> and the promise whose \<open>resolve\<close> and \<open>reject\<close> it carries.\<close>

record inspect_request =
  r_s :: jsval
  r_a :: jsval
  r_d :: jsval
  r_m :: jsval
  r_time :: int
  r_promise :: nat

record bot_settings =
  request_delay :: int
  request_ttl :: int
  max_concurrent_requests :: int

text \<open>The three timers a bot arms for its dispatcher: the request deadline
  (\<open>ttlTimeout\<close>), the post-response delay after which \<open>busy\<close> is cleared, and a
  deferred call of \<open>processRequestQueue\<close>. What a step does to the outside: a call of
  \<open>csgoClient.inspectItem\<close>, or the settling of a caller's promise.\<close>

datatype timer_kind = TtlTimer | BusyClearTimer | ProcessQueueTimer

datatype bot_output =
    Wire_inspectItem jsval jsval jsval
  | PromiseResolved nat item_data
  | PromiseRejected nat

text \<open>The dispatcher's part of the state of a \<open>Bot\<close>; \<open>timers\<close> holds the armed
  timers as (handle, due time, kind).\<close>

record bot =
  settings :: bot_settings
  busy :: bool
  ready :: bool
  isShuttingDown :: bool
  requestQueue :: "inspect_request list"
  activeRequests :: int
  resolve :: "nat option"
  currentRequest :: "inspect_request option"
  ttlTimeout :: "nat option"
  lastRequestTime :: int
  timers :: "(nat \<times> int \<times> timer_kind) list"
  next_timer :: nat

definition default_settings :: bot_settings where
  "default_settings = \<lparr>request_delay = 1000, request_ttl = 30000, max_concurrent_requests = 5\<rparr>"

definition new_bot :: "bot_settings \<Rightarrow> bot" where
  "new_bot st = \<lparr>settings = st, busy = False, ready = False, isShuttingDown = False,
     requestQueue = [], activeRequests = 0, resolve = None, currentRequest = None,
     ttlTimeout = None, lastRequestTime = 0, timers = [], next_timer = 0\<rparr>"

definition setTimeout :: "timer_kind \<Rightarrow> int \<Rightarrow> bot \<Rightarrow> nat \<times> bot" where
  "setTimeout kind due b =
     (next_timer b, b\<lparr>timers := timers b @ [(next_timer b, due, kind)], next_timer := Suc (next_timer b)\<rparr>)"

definition clearTimeout :: "nat \<Rightarrow> bot \<Rightarrow> bot" where
  "clearTimeout t b = b\<lparr>timers := filter (\<lambda>(t', _). t' \<noteq> t) (timers b)\<rparr>"

definition clear_ttl :: "bot \<Rightarrow> bot" where
  "clear_ttl b = (case ttlTimeout b of None \<Rightarrow> b | Some t \<Rightarrow> (clearTimeout t b)\<lparr>ttlTimeout := None\<rparr>)"

text \<open>\<open>processItemData(itemData, delay)\<close>\<close>

definition rename_sticker :: "obj \<Rightarrow> obj" where
  "rename_sticker sticker =
     delete_prop ''sticker_id'' (set_prop ''stickerId'' (get_prop sticker ''sticker_id'') sticker)"

definition processItemData :: "iteminfo \<Rightarrow> int \<Rightarrow> inspect_request \<Rightarrow> item_data" where
  "processItemData info dl cur =
     (let p1 = set_prop ''m'' (r_m cur) (set_prop ''d'' (r_d cur)
                 (set_prop ''a'' (r_a cur) (set_prop ''s'' (r_s cur) (props info))));
          p2 = set_prop ''paintseed''
                 (if truthy (get_prop p1 ''paintseed'') then get_prop p1 ''paintseed'' else Num 0) p1;
          p3 = delete_prop ''paintwear'' (set_prop ''floatvalue'' (get_prop p2 ''paintwear'') p2)
      in \<lparr>iteminfo = \<lparr>props = p3, stickers = map_option (map rename_sticker) (stickers info)\<rparr>,
          delay = dl\<rparr>)"

text \<open>\<open>handleRequestError(error)\<close>; the timer delay \<open>request_delay / 4\<close> is taken
  as a whole number of milliseconds.\<close>

definition handleRequestError :: "int \<Rightarrow> bot \<Rightarrow> bot \<times> bot_output list" where
  "handleRequestError now b0 =
     (let b1 = (clear_ttl b0)\<lparr>busy := False, activeRequests := max 0 (activeRequests b0 - 1)\<rparr>;
          (b2, outs) =
             (case (resolve b1, currentRequest b1) of
                (Some _, Some cur) \<Rightarrow>
                   (b1\<lparr>resolve := None, currentRequest := None\<rparr>, [PromiseRejected (r_promise cur)])
              | _ \<Rightarrow> (b1, []))
      in (snd (setTimeout ProcessQueueTimer (now + request_delay (settings b2) div 4) b2), outs))"

text \<open>\<open>executeRequest(request)\<close>; \<open>wire_ok\<close> tells whether
  \<open>csgoClient.inspectItem\<close> returns or throws.\<close>

definition executeRequest :: "inspect_request \<Rightarrow> int \<Rightarrow> bool \<Rightarrow> bot \<Rightarrow> bot \<times> bot_output list" where
  "executeRequest request now wire_ok b0 =
     (let b1 = b0\<lparr>activeRequests := activeRequests b0 + 1, busy := True,
                  resolve := Some (r_promise request), currentRequest := Some request\<rparr>
      in if wire_ok then
           (let (t, b2) = setTimeout TtlTimer (now + request_ttl (settings b1)) b1
            in (b2\<lparr>ttlTimeout := Some t\<rparr>,
                [Wire_inspectItem (if r_s request \<noteq> Str ''0'' then r_s request else r_m request)
                   (r_a request) (r_d request)]))
         else handleRequestError now b1)"

definition canProcessRequest :: "int \<Rightarrow> bot \<Rightarrow> bool" where
  "canProcessRequest now b \<longleftrightarrow> \<not> now - lastRequestTime b < request_delay (settings b)"

definition processRequestQueue :: "int \<Rightarrow> bool \<Rightarrow> bot \<Rightarrow> bot \<times> bot_output list" where
  "processRequestQueue now wire_ok b =
     (if isShuttingDown b \<or> busy b \<or> \<not> ready b \<or> length (requestQueue b) = 0 then (b, [])
      else if activeRequests b \<ge> max_concurrent_requests (settings b) then (b, [])
      else if \<not> canProcessRequest now b then
        (snd (setTimeout ProcessQueueTimer (now + request_delay (settings b)) b), [])
      else
        (case requestQueue b of
           [] \<Rightarrow> (b, [])
         | request # rest \<Rightarrow>
             executeRequest request now wire_ok (b\<lparr>requestQueue := rest, lastRequestTime := now\<rparr>)))"

definition handleInspectResponse :: "iteminfo \<Rightarrow> int \<Rightarrow> bot \<Rightarrow> bot \<times> bot_output list" where
  "handleInspectResponse info now b =
     (case (resolve b, currentRequest b) of
        (Some promise, Some cur) \<Rightarrow>
          if \<not> strict_eq (get_prop (props info) ''itemid'') (r_a cur) then (b, [])
          else
            let b1 = clear_ttl b;
                offset = now - r_time cur;
                dl = (if request_delay (settings b) - offset < 0 then 0
                      else request_delay (settings b) - offset);
                itemData = processItemData info dl cur;
                b2 = b1\<lparr>resolve := None, currentRequest := None,
                        activeRequests := activeRequests b1 - 1\<rparr>
            in (snd (setTimeout BusyClearTimer (now + dl) b2), [PromiseResolved promise itemData])
      | _ \<Rightarrow> (b, []))"

definition sendFloatRequest ::
  "jsval \<Rightarrow> jsval \<Rightarrow> jsval \<Rightarrow> jsval \<Rightarrow> nat \<Rightarrow> int \<Rightarrow> bot \<Rightarrow> bot \<times> bot_output list" where
  "sendFloatRequest ps pa pd pm promise now b =
     (if isShuttingDown b then (b, [PromiseRejected promise])
      else if \<not> ready b then (b, [PromiseRejected promise])
      else
        (snd (setTimeout ProcessQueueTimer (now + 10)
               (b\<lparr>requestQueue := requestQueue b @
                     [\<lparr>r_s = ps, r_a = pa, r_d = pd, r_m = pm, r_time = now, r_promise = promise\<rparr>]\<rparr>)),
         []))"

definition destroy :: "bot \<Rightarrow> bot \<times> bot_output list" where
  "destroy b =
     ((clear_ttl (b\<lparr>isShuttingDown := True\<rparr>))\<lparr>requestQueue := []\<rparr>,
      map (\<lambda>req. PromiseRejected (r_promise req)) (requestQueue b))"

text \<open>The callbacks of the three timers.\<close>

definition fire_timer :: "timer_kind \<Rightarrow> int \<Rightarrow> bool \<Rightarrow> bot \<Rightarrow> bot \<times> bot_output list" where
  "fire_timer kind now wire_ok b =
     (case kind of
        TtlTimer \<Rightarrow> handleRequestError now b
      | BusyClearTimer \<Rightarrow> (snd (setTimeout ProcessQueueTimer (now + 10) (b\<lparr>busy := False\<rparr>)), [])
      | ProcessQueueTimer \<Rightarrow> processRequestQueue now wire_ok b)"

text \<open>What can happen to a bot's dispatcher: a call of \<open>sendFloatRequest\<close>, an
  \<open>inspectItemInfo\<close> event, an armed timer firing no earlier than it is due, the
  coordinator session coming up or going down, \<open>destroy\<close>. Each event carries the
  reading of the clock.\<close>

datatype bot_event =
    SendFloatRequest jsval jsval jsval jsval nat int
  | InspectItemInfo iteminfo int
  | TimerFired nat int bool
  | ConnectedToGC int bool
  | DisconnectedFromGC
  | Destroy

fun bot_step :: "bot_event \<Rightarrow> bot \<Rightarrow> (bot \<times> bot_output list) option" where
  "bot_step (SendFloatRequest ps pa pd pm promise now) b = Some (sendFloatRequest ps pa pd pm promise now b)"
| "bot_step (InspectItemInfo info now) b = Some (handleInspectResponse info now b)"
| "bot_step (TimerFired t now wire_ok) b =
     (case filter (\<lambda>(t', _). t' = t) (timers b) of
        (_, due, kind) # _ \<Rightarrow>
          if due \<le> now then Some (fire_timer kind now wire_ok (clearTimeout t b)) else None
      | [] \<Rightarrow> None)"
| "bot_step (ConnectedToGC now wire_ok) b = Some (processRequestQueue now wire_ok (b\<lparr>ready := True\<rparr>))"
| "bot_step DisconnectedFromGC b = Some (b\<lparr>ready := False\<rparr>, [])"
| "bot_step Destroy b = Some (destroy b)"

inductive bot_reachable :: "bot \<Rightarrow> bool" where
  created: "bot_reachable (new_bot st)"
| stepped: "bot_reachable b \<Longrightarrow> bot_step e b = Some (b', outs) \<Longrightarrow> bot_reachable b'"

text \<open>The invariant of the dispatcher: an idle bot holds no request; the promise and the
  request are held together; a pending busy-clear timer means the bot is busy with no
  request held, and there is only one such timer; a pending deadline timer is the one in
  \<open>ttlTimeout\<close> and belongs to the request held.\<close>

definition one_in_flight :: "bot \<Rightarrow> bool" where
  "one_in_flight b \<longleftrightarrow>
     (\<not> busy b \<longrightarrow> currentRequest b = None)
     \<and> (resolve b = None \<longleftrightarrow> currentRequest b = None)
     \<and> (\<forall>(t, due, kind) \<in> set (timers b).
           t < next_timer b
           \<and> (kind = BusyClearTimer \<longrightarrow> busy b \<and> currentRequest b = None
                 \<and> (\<forall>(t', due', kind') \<in> set (timers b). kind' = BusyClearTimer \<longrightarrow> t' = t))
           \<and> (kind = TtlTimer \<longrightarrow> ttlTimeout b = Some t \<and> currentRequest b \<noteq> None))
     \<and> distinct (map fst (timers b))"

text \<open>The states in which \<open>handleRequestError\<close> is entered: no busy-clear timer is
  pending and every pending deadline timer is the one in \<open>ttlTimeout\<close>.\<close>

definition quiet :: "bot \<Rightarrow> bool" where
  "quiet b \<longleftrightarrow>
     (resolve b = None \<longleftrightarrow> currentRequest b = None)
     \<and> (\<forall>(t, due, kind) \<in> set (timers b).
           t < next_timer b \<and> kind \<noteq> BusyClearTimer \<and> (kind = TtlTimer \<longrightarrow> ttlTimeout b = Some t))
     \<and> distinct (map fst (timers b))"

text \<open>A concrete run of one bot, used to exercise the theorems: the session comes up at
  time 0; at 2000 an inspect of asset 10 is queued; at 2010 the deferred
  \<open>processRequestQueue\<close> dispatches it; at 2300 the coordinator answers, echoing
  \<open>a = 999\<close> and a null paintseed; at 3000 the busy flag is cleared.\<close>

definition demo_info :: "string \<Rightarrow> iteminfo" where
  "demo_info i =
     \<lparr>props = [(''itemid'', Str i), (''paintwear'', Num (1 / 4)), (''paintseed'', Null),
               (''paintindex'', Num 44), (''a'', Str ''999'')],
      stickers = Some [[(''slot'', Num 0), (''sticker_id'', Num 5)]]\<rparr>"

definition demo_inspect :: inspect_request where
  "demo_inspect = \<lparr>r_s = Str ''7'', r_a = Str ''10'', r_d = Str ''3'', r_m = Str ''0'',
                    r_time = 2000, r_promise = 42\<rparr>"

definition ready_bot :: bot where
  "ready_bot = fst (the (bot_step (ConnectedToGC 0 True) (new_bot default_settings)))"

definition queued_bot :: bot where
  "queued_bot = fst (the (bot_step
     (SendFloatRequest (Str ''7'') (Str ''10'') (Str ''3'') (Str ''0'') 42 2000) ready_bot))"

definition dispatched_bot :: bot where
  "dispatched_bot = fst (the (bot_step (TimerFired 0 2010 True) queued_bot))"

definition answered_bot :: bot where
  "answered_bot = fst (the (bot_step (InspectItemInfo (demo_info ''10'') 2300) dispatched_bot))"

definition released_bot :: bot where
  "released_bot = fst (the (bot_step (TimerFired 2 3000 True) answered_bot))"

section \<open>The earlier revision of Queue (second document of src/lib/bot.js)\<close>

text \<open>That revision scans the lanes 1 to 3 only, tests \<open>attempts === max_attempts\<close>,
  keeps a counter that has reached zero, and puts a rejected entry back on its lane at
  once, without a timer.\<close>

definition dequeue_earlier :: "(nat \<Rightarrow> 'a list) \<Rightarrow> ('a \<times> (nat \<Rightarrow> 'a list)) option" where
  "dequeue_earlier pq = scan_lanes [1, 2, 3] pq"

definition catch_callback_earlier :: "'d entry \<Rightarrow> 'e rejection \<Rightarrow> ('d, 'e) queue \<Rightarrow> ('d, 'e) queue" where
  "catch_callback_earlier job0 err q =
     (let job = count_attempt err job0 in
      if attempts job = max_attempts job then
        q\<lparr>emitted := emitted q @ [(job, err)],
          users := (users q)(ip job \<mapsto> decr (users q (ip job)))\<rparr>
      else requeue job q)"

section \<open>Priority and order of dispatch\<close>

lemma scan_lanes_first:
  assumes "p \<in> set ps" and "pq p \<noteq> []"
  shows "\<exists>pre p0 post job rest. ps = pre @ p0 # post \<and> (\<forall>p' \<in> set pre. pq p' = [])
           \<and> pq p0 = job # rest \<and> scan_lanes ps pq = Some (job, pq(p0 := rest))"
  using assms
proof (induction ps)
  case Nil
  then show ?case by simp
next
  case (Cons x xs)
  show ?case
  proof (cases "pq x")
    case Nil
    with Cons.prems have "p \<in> set xs" by auto
    from Cons.IH[OF this Cons.prems(2)] obtain pre p0 post job rest where
      h: "xs = pre @ p0 # post" "\<forall>p' \<in> set pre. pq p' = []" "pq p0 = job # rest"
         "scan_lanes xs pq = Some (job, pq(p0 := rest))" by blast
    have "x # xs = (x # pre) @ p0 # post" using h(1) by simp
    moreover have "\<forall>p' \<in> set (x # pre). pq p' = []" using h(2) Nil by simp
    moreover have "scan_lanes (x # xs) pq = Some (job, pq(p0 := rest))" using h(4) Nil by simp
    ultimately show ?thesis using h(3) by blast
  next
    case (Cons job rest)
    have "x # xs = [] @ x # xs" by simp
    moreover have "scan_lanes (x # xs) pq = Some (job, pq(x := rest))" using Cons by simp
    ultimately show ?thesis using Cons by fastforce
  qed
qed

lemma lanes_upt: "[1, 2, 3, 4, 5] = [1..<6]"
  by code_simp

lemma upt_split_sorted:
  assumes "[1, 2, 3, 4, 5] = pre @ (p0::nat) # post"
  shows "1 \<le> p0 \<and> p0 \<le> 5 \<and> set pre = {p'. 1 \<le> p' \<and> p' < p0}"
proof -
  have u: "[1..<6] = pre @ p0 # post" using assms lanes_upt by simp
  have s: "sorted_wrt (<) (pre @ p0 # post)" using u by (metis sorted_wrt_upt)
  have m: "set (pre @ p0 # post) = {1..<6}" using u by (metis set_upt)
  have a: "p0 \<in> {1..<6}" using m by auto
  have b: "\<forall>x \<in> set pre. x < p0" using s by (auto simp: sorted_wrt_append)
  have c: "\<forall>x \<in> set post. p0 < x" using s by (auto simp: sorted_wrt_append)
  have "set pre = {p'. 1 \<le> p' \<and> p' < p0}"
  proof (intro set_eqI iffI)
    fix x assume "x \<in> set pre"
    then show "x \<in> {p'. 1 \<le> p' \<and> p' < p0}" using b m by auto
  next
    fix x assume "x \<in> {p'. 1 \<le> p' \<and> p' < p0}"
    then have "x \<in> {1..<6}" "x < p0" using a by auto
    then have "x \<in> set (pre @ p0 # post)" using m by simp
    then show "x \<in> set pre" using c \<open>x < p0\<close> by auto
  qed
  then show ?thesis using a by auto
qed

lemma dequeue_first:
  assumes "lane_defined p" and "pq p \<noteq> []"
  shows "\<exists>p0 job rest. lane_defined p0 \<and> p0 \<le> p
           \<and> (\<forall>p'. lane_defined p' \<and> p' < p0 \<longrightarrow> pq p' = [])
           \<and> pq p0 = job # rest
           \<and> dequeue pq = Some (job, pq(p0 := rest))"
proof -
  have "p \<in> set [1, 2, 3, 4, 5]" using assms(1) by (auto simp: lane_defined_def)
  from scan_lanes_first[of p "[1, 2, 3, 4, 5]" pq, OF this assms(2)] obtain pre p0 post job rest where
    h: "[1, 2, 3, 4, 5] = pre @ p0 # post" "\<forall>p' \<in> set pre. pq p' = []" "pq p0 = job # rest"
       "scan_lanes [1, 2, 3, 4, 5] pq = Some (job, pq(p0 := rest))" by blast
  from upt_split_sorted[OF h(1)] have
    r: "1 \<le> p0" "p0 \<le> 5" "set pre = {p'. 1 \<le> p' \<and> p' < p0}" by auto
  have e: "\<forall>p'. lane_defined p' \<and> p' < p0 \<longrightarrow> pq p' = []"
    using h(2) r(3) by (auto simp: lane_defined_def)
  have "p0 \<le> p"
  proof (rule ccontr)
    assume "\<not> p0 \<le> p"
    then have "p < p0" by simp
    then have "pq p = []" using e assms(1) by blast
    then show False using assms(2) by simp
  qed
  then show ?thesis using r e h(3,4) by (auto simp: lane_defined_def dequeue_def)
qed

lemma size_q_waiting: "size_q q = length (waiting (priorityQueues q))"
  by (simp add: size_q_def lanes_size_def waiting_def)

lemma waiting_nonempty_lane:
  assumes "waiting pq \<noteq> []"
  shows "\<exists>p. lane_defined p \<and> pq p \<noteq> []"
proof (rule ccontr)
  assume "\<not> (\<exists>p. lane_defined p \<and> pq p \<noteq> [])"
  then have "pq 1 = []" "pq 2 = []" "pq 3 = []" "pq 4 = []" "pq 5 = []"
    by (simp_all add: lane_defined_def)
  then show False using assms by (simp add: waiting_def)
qed

lemma waiting_head:
  assumes "lane_defined p0" and "\<forall>p'. lane_defined p' \<and> p' < p0 \<longrightarrow> pq p' = []"
    and "pq p0 = job # rest"
  shows "waiting pq = job # waiting (pq(p0 := rest))"
proof -
  have c: "p0 = 1 \<or> p0 = 2 \<or> p0 = 3 \<or> p0 = 4 \<or> p0 = 5"
    using assms(1) by (auto simp: lane_defined_def)
  have e: "\<And>p'. 1 \<le> p' \<Longrightarrow> p' < p0 \<Longrightarrow> pq p' = []"
    using assms(1,2) by (simp add: lane_defined_def)
  from c show ?thesis
  proof (elim disjE)
    assume "p0 = 1"
    then show ?thesis using assms(3) by (simp add: waiting_def)
  next
    assume p: "p0 = 2"
    then have "pq 1 = []" using e[of 1] by simp
    then show ?thesis using assms(3) p by (simp add: waiting_def)
  next
    assume p: "p0 = 3"
    then have "pq 1 = []" "pq 2 = []" using e[of 1] e[of 2] by simp_all
    then show ?thesis using assms(3) p by (simp add: waiting_def)
  next
    assume p: "p0 = 4"
    then have "pq 1 = []" "pq 2 = []" "pq 3 = []" using e[of 1] e[of 2] e[of 3] by simp_all
    then show ?thesis using assms(3) p by (simp add: waiting_def)
  next
    assume p: "p0 = 5"
    then have "pq 1 = []" "pq 2 = []" "pq 3 = []" "pq 4 = []"
      using e[of 1] e[of 2] e[of 3] e[of 4] by simp_all
    then show ?thesis using assms(3) p by (simp add: waiting_def)
  qed
qed

text \<open>One round of the loop takes the first waiting entry, in the order of the lanes.\<close>

lemma dequeue_round:
  assumes "waiting pq \<noteq> []"
  shows "\<exists>p0 job rest. lane_defined p0 \<and> (\<forall>p'. lane_defined p' \<and> p' < p0 \<longrightarrow> pq p' = [])
           \<and> pq p0 = job # rest \<and> dequeue pq = Some (job, pq(p0 := rest))
           \<and> waiting pq = job # waiting (pq(p0 := rest))"
proof -
  from waiting_nonempty_lane[OF assms] obtain p where p: "lane_defined p" "pq p \<noteq> []" by blast
  from dequeue_first[of p pq, OF p] obtain p0 job rest where
    h: "lane_defined p0" "\<forall>p'. lane_defined p' \<and> p' < p0 \<longrightarrow> pq p' = []"
       "pq p0 = job # rest" "dequeue pq = Some (job, pq(p0 := rest))" by blast
  from waiting_head[OF h(1,2,3)] have "waiting pq = job # waiting (pq(p0 := rest))" .
  then show ?thesis using h by blast
qed

lemma dispatch_count_stop:
  assumes "\<not> (running q \<and> size_q q > 0 \<and> activeJobsCount q < concurrency q)"
  shows "dispatch_count q = 0"
  using assms by (auto simp: dispatch_count_def)

lemma dispatch_count_round:
  assumes "running q \<and> size_q q > 0 \<and> activeJobsCount q < concurrency q"
    and "size_q q = Suc (lanes_size pq')"
  shows "dispatch_count q
           = Suc (dispatch_count (q\<lparr>priorityQueues := pq', activeJobsCount := activeJobsCount q + 1,
                                     inflight := inflight q @ [job]\<rparr>))"
proof -
  have "nat (concurrency q - activeJobsCount q) = Suc (nat (concurrency q - (activeJobsCount q + 1)))"
    using assms(1) by auto
  then show ?thesis using assms by (simp add: dispatch_count_def size_q_def)
qed

lemma checkQueue_loop_dispatch:
  "inflight (checkQueue_loop q) = inflight q @ take (dispatch_count q) (waiting (priorityQueues q))
   \<and> waiting (priorityQueues (checkQueue_loop q)) = drop (dispatch_count q) (waiting (priorityQueues q))
   \<and> (\<forall>p. \<exists>n. priorityQueues (checkQueue_loop q) p = drop n (priorityQueues q p))
   \<and> (\<forall>p p'. lane_defined p \<and> p < p' \<and> priorityQueues (checkQueue_loop q) p \<noteq> []
         \<longrightarrow> priorityQueues (checkQueue_loop q) p' = priorityQueues q p')"
proof (induction q rule: checkQueue_loop.induct)
  case (1 q)
  show ?case
  proof (cases "running q \<and> size_q q > 0 \<and> activeJobsCount q < concurrency q")
    case False
    then have e: "checkQueue_loop q = q" by (subst checkQueue_loop.simps) auto
    have k: "dispatch_count q = 0" using False by (rule dispatch_count_stop)
    have "\<forall>p. \<exists>n. priorityQueues q p = drop n (priorityQueues q p)"
    proof
      fix p
      have "priorityQueues q p = drop 0 (priorityQueues q p)" by simp
      then show "\<exists>n. priorityQueues q p = drop n (priorityQueues q p)" by (rule exI)
    qed
    then show ?thesis by (simp add: e k)
  next
    case True
    then have "waiting (priorityQueues q) \<noteq> []" by (simp add: size_q_waiting)
    from dequeue_round[OF this] obtain p0 job rest where
      h: "lane_defined p0" "\<forall>p'. lane_defined p' \<and> p' < p0 \<longrightarrow> priorityQueues q p' = []"
         "priorityQueues q p0 = job # rest"
         "dequeue (priorityQueues q) = Some (job, (priorityQueues q)(p0 := rest))"
         "waiting (priorityQueues q) = job # waiting ((priorityQueues q)(p0 := rest))" by blast
    let ?pq' = "(priorityQueues q)(p0 := rest)"
    let ?q' = "q\<lparr>priorityQueues := ?pq', activeJobsCount := activeJobsCount q + 1,
                   inflight := inflight q @ [job]\<rparr>"
    let ?r = "checkQueue_loop ?q'"
    have e: "checkQueue_loop q = ?r"
      using True h(4) by (subst checkQueue_loop.simps) simp
    have s: "size_q q = Suc (lanes_size ?pq')"
      using dequeue_size[OF h(4)] by (simp add: size_q_def)
    have k: "dispatch_count q = Suc (dispatch_count ?q')"
      using dispatch_count_round[OF True s] .
    have ih: "inflight ?r = inflight ?q' @ take (dispatch_count ?q') (waiting (priorityQueues ?q'))
       \<and> waiting (priorityQueues ?r) = drop (dispatch_count ?q') (waiting (priorityQueues ?q'))
       \<and> (\<forall>p. \<exists>n. priorityQueues ?r p = drop n (priorityQueues ?q' p))
       \<and> (\<forall>p p'. lane_defined p \<and> p < p' \<and> priorityQueues ?r p \<noteq> []
             \<longrightarrow> priorityQueues ?r p' = priorityQueues ?q' p')"
      using "1.IH"[OF True h(4) refl] .
    have i3: "\<forall>p. \<exists>n. priorityQueues ?r p = drop n (priorityQueues ?q' p)"
      using ih by blast
    have i4: "\<forall>p p'. lane_defined p \<and> p < p' \<and> priorityQueues ?r p \<noteq> []
             \<longrightarrow> priorityQueues ?r p' = priorityQueues ?q' p'"
      using ih by blast
    have a: "inflight ?r = inflight q @ take (dispatch_count q) (waiting (priorityQueues q))"
      using ih by (simp add: k h(5))
    have b: "waiting (priorityQueues ?r) = drop (dispatch_count q) (waiting (priorityQueues q))"
      using ih by (simp add: k h(5))
    have c: "\<exists>n. priorityQueues ?r p = drop n (priorityQueues q p)" for p
    proof -
      from i3 obtain n where "priorityQueues ?r p = drop n (priorityQueues ?q' p)" by blast
      then have n: "priorityQueues ?r p = drop n (?pq' p)" by simp
      show ?thesis
      proof (cases "p = p0")
        case True
        then have "priorityQueues ?r p = drop (Suc n) (priorityQueues q p)" using n h(3) by simp
        then show ?thesis by (rule exI)
      next
        case False
        then have "priorityQueues ?r p = drop n (priorityQueues q p)" using n by simp
        then show ?thesis by (rule exI)
      qed
    qed
    have d: "priorityQueues ?r p' = priorityQueues q p'"
      if l: "lane_defined p" "p < p'" "priorityQueues ?r p \<noteq> []" for p p'
    proof -
      have "priorityQueues ?r p' = priorityQueues ?q' p'" using i4 l by blast
      then have i: "priorityQueues ?r p' = ?pq' p'" by simp
      from i3 obtain n where "priorityQueues ?r p = drop n (priorityQueues ?q' p)" by blast
      then have n: "priorityQueues ?r p = drop n (?pq' p)" by simp
      have "p' \<noteq> p0"
      proof
        assume p: "p' = p0"
        then have "priorityQueues q p = []" using h(2) l(1,2) by simp
        moreover have "p \<noteq> p0" using p l(2) by simp
        ultimately have "?pq' p = []" by simp
        then show False using n l(3) by simp
      qed
      then show ?thesis using i by simp
    qed
    show ?thesis using a b c d by (simp only: e) blast
  qed
qed

lemma checkQueue_dispatch:
  assumes "\<not> processingLock q"
  shows "inflight (checkQueue q) = inflight q @ take (dispatch_count q) (waiting (priorityQueues q))
   \<and> waiting (priorityQueues (checkQueue q)) = drop (dispatch_count q) (waiting (priorityQueues q))
   \<and> (\<forall>p. \<exists>n. priorityQueues (checkQueue q) p = drop n (priorityQueues q p))
   \<and> (\<forall>p p'. lane_defined p \<and> p < p' \<and> priorityQueues (checkQueue q) p \<noteq> []
         \<longrightarrow> priorityQueues (checkQueue q) p' = priorityQueues q p')"
proof -
  let ?q = "q\<lparr>processingLock := True\<rparr>"
  have e: "checkQueue q = (checkQueue_loop ?q)\<lparr>processingLock := False\<rparr>"
    using assms by (simp add: checkQueue_def)
  have k: "dispatch_count ?q = dispatch_count q" by (simp add: dispatch_count_def size_q_def)
  show ?thesis using checkQueue_loop_dispatch[of ?q] by (simp add: e k)
qed

text \<open>Where every entry waits on the lane of its priority, the entries of one lane are
  told apart by that field: those that a call has dispatched, followed by those it has
  left on the lane, are the lane as it was.\<close>

lemma waiting_filter:
  assumes "lanes_by_priority pq" and "lane_defined p"
  shows "filter (\<lambda>e. priority e = p) (waiting pq) = pq p"
proof -
  have f: "filter (\<lambda>e. priority e = p) (pq p') = (if p' = p then pq p else [])"
    if "lane_defined p'" for p'
    using assms(1) that by (auto simp: lanes_by_priority_def filter_id_conv filter_empty_conv)
  have l: "lane_defined 1" "lane_defined 2" "lane_defined 3" "lane_defined 4" "lane_defined 5"
    by (simp_all add: lane_defined_def)
  have c: "p = 1 \<or> p = 2 \<or> p = 3 \<or> p = 4 \<or> p = 5"
    using assms(2) by (auto simp: lane_defined_def)
  have "filter (\<lambda>e. priority e = p) (waiting pq)
          = (if 1 = p then pq p else []) @ (if 2 = p then pq p else []) @ (if 3 = p then pq p else [])
            @ (if 4 = p then pq p else []) @ (if 5 = p then pq p else [])"
    by (simp only: waiting_def filter_append f[OF l(1)] f[OF l(2)] f[OF l(3)] f[OF l(4)] f[OF l(5)])
  then show ?thesis using c by auto
qed

lemma lanes_by_priority_drop:
  assumes "lanes_by_priority pq" and "\<forall>p. \<exists>n. pq' p = drop n (pq p)"
  shows "lanes_by_priority pq'"
proof -
  have "priority e = p" if "lane_defined p" "e \<in> set (pq' p)" for p e
  proof -
    from assms(2) obtain n where "pq' p = drop n (pq p)" by auto
    then have "e \<in> set (pq p)" using that(2) by (auto dest: in_set_dropD)
    then show ?thesis using assms(1) that(1) by (simp add: lanes_by_priority_def)
  qed
  then show ?thesis by (simp add: lanes_by_priority_def)
qed

lemma checkQueue_lane_order:
  assumes "lanes_by_priority (priorityQueues q)" and "lane_defined p"
  shows "\<exists>ds. inflight (checkQueue q) = inflight q @ ds
           \<and> filter (\<lambda>e. priority e = p) ds @ priorityQueues (checkQueue q) p = priorityQueues q p
           \<and> lanes_by_priority (priorityQueues (checkQueue q))"
proof (cases "processingLock q")
  case True
  then have "checkQueue q = q" by (simp add: checkQueue_def)
  then show ?thesis using assms(1) by simp
next
  case False
  let ?k = "dispatch_count q"
  let ?W = "waiting (priorityQueues q)"
  let ?P = "\<lambda>e. priority e = p"
  note d = checkQueue_dispatch[OF False]
  have w: "lanes_by_priority (priorityQueues (checkQueue q))"
    using lanes_by_priority_drop[OF assms(1), of "priorityQueues (checkQueue q)"] d by blast
  have "priorityQueues (checkQueue q) p = filter ?P (waiting (priorityQueues (checkQueue q)))"
    using waiting_filter[OF w assms(2)] by simp
  also have "\<dots> = filter ?P (drop ?k ?W)" using d by simp
  finally have l: "priorityQueues (checkQueue q) p = filter ?P (drop ?k ?W)" .
  have "filter ?P (take ?k ?W) @ filter ?P (drop ?k ?W) = filter ?P (take ?k ?W @ drop ?k ?W)"
    by (simp only: filter_append)
  also have "\<dots> = filter ?P ?W" by simp
  also have "\<dots> = priorityQueues q p" using waiting_filter[OF assms] .
  finally have "filter ?P (take ?k ?W) @ priorityQueues (checkQueue q) p = priorityQueues q p"
    by (simp only: l)
  moreover have "inflight (checkQueue q) = inflight q @ take ?k ?W" using d by simp
  ultimately show ?thesis using w by blast
qed

lemma addJob_links_lane_order:
  assumes "lane_defined p"
  shows "lanes_by_priority (priorityQueues q) \<Longrightarrow>
         \<exists>q' ds. addJob_links i m p links q = Normal q' \<and> inflight q' = inflight q @ ds
           \<and> filter (\<lambda>e. priority e = p) ds @ priorityQueues q' p
               = priorityQueues q p
                 @ map (\<lambda>l. \<lparr>data = l, max_attempts = m, attempts = 0, ip = i, priority = p\<rparr>) links
           \<and> lanes_by_priority (priorityQueues q')"
proof (induction links arbitrary: q)
  case Nil
  then show ?case by simp
next
  case (Cons link links)
  let ?P = "\<lambda>e. priority e = p"
  let ?mk = "\<lambda>l. \<lparr>data = l, max_attempts = m, attempts = 0, ip = i, priority = p\<rparr>"
  let ?q1 = "q\<lparr>priorityQueues := (priorityQueues q)(p := priorityQueues q p @ [?mk link])\<rparr>"
  let ?q2 = "?q1\<lparr>users := set_user i (incr (users ?q1 i)) (users ?q1)\<rparr>"
  have w2: "lanes_by_priority (priorityQueues ?q2)"
    using Cons.prems by (auto simp: lanes_by_priority_def)
  from checkQueue_lane_order[OF w2 assms] obtain ds1 where
    c: "inflight (checkQueue ?q2) = inflight ?q2 @ ds1"
       "filter ?P ds1 @ priorityQueues (checkQueue ?q2) p = priorityQueues ?q2 p"
       "lanes_by_priority (priorityQueues (checkQueue ?q2))" by blast
  from Cons.IH[OF c(3)] obtain q' ds2 where
    h: "addJob_links i m p links (checkQueue ?q2) = Normal q'"
       "inflight q' = inflight (checkQueue ?q2) @ ds2"
       "filter ?P ds2 @ priorityQueues q' p = priorityQueues (checkQueue ?q2) p @ map ?mk links"
       "lanes_by_priority (priorityQueues q')" by blast
  have r: "addJob_links i m p (link # links) q = Normal q'"
    using h(1) assms by (simp add: Let_def)
  have f: "inflight q' = inflight q @ (ds1 @ ds2)" using h(2) c(1) by simp
  have "filter ?P (ds1 @ ds2) @ priorityQueues q' p
          = filter ?P ds1 @ (filter ?P ds2 @ priorityQueues q' p)" by simp
  also have "\<dots> = (filter ?P ds1 @ priorityQueues (checkQueue ?q2) p) @ map ?mk links"
    by (simp only: h(3) append_assoc)
  also have "\<dots> = priorityQueues ?q2 p @ map ?mk links" by (simp only: c(2))
  also have "\<dots> = priorityQueues q p @ map ?mk (link # links)" by simp
  finally have "filter ?P (ds1 @ ds2) @ priorityQueues q' p
                  = priorityQueues q p @ map ?mk (link # links)" .
  then show ?case using r f h(4) by blast
qed

lemma addJob_lane_order:
  assumes "lane_defined p" and "lanes_by_priority (priorityQueues q)"
  shows "\<exists>q' ds. addJob i links m p q = Normal q' \<and> inflight q' = inflight q @ ds
           \<and> filter (\<lambda>e. priority e = p) ds @ priorityQueues q' p
               = priorityQueues q p
                 @ map (\<lambda>l. \<lparr>data = l, max_attempts = m, attempts = 0, ip = i, priority = p\<rparr>) links"
proof -
  let ?q0 = "if \<not> has_user (users q) i then q\<lparr>users := set_user i (Count 0) (users q)\<rparr> else q"
  have "lanes_by_priority (priorityQueues ?q0)" using assms(2) by simp
  from addJob_links_lane_order[OF assms(1) this, of i m links]
  show ?thesis by (auto simp: addJob_def)
qed

lemma backoff_callback_lane_order:
  assumes "lane_defined (priority job)" and "lanes_by_priority (priorityQueues q)"
  shows "\<exists>q' ds. backoff_callback job q = Normal q' \<and> inflight q' = inflight q @ ds
           \<and> filter (\<lambda>e. priority e = priority job) ds @ priorityQueues q' (priority job)
               = job # priorityQueues q (priority job)"
proof -
  have w: "lanes_by_priority (priorityQueues (requeue job q))"
    using assms(2) by (auto simp: lanes_by_priority_def requeue_def)
  from checkQueue_lane_order[OF w assms(1)] obtain ds where
    c: "inflight (checkQueue (requeue job q)) = inflight (requeue job q) @ ds"
       "filter (\<lambda>e. priority e = priority job) ds @ priorityQueues (checkQueue (requeue job q)) (priority job)
          = priorityQueues (requeue job q) (priority job)" by blast
  have "backoff_callback job q = Normal (checkQueue (requeue job q))"
    using assms(1) by (simp add: backoff_callback_def)
  moreover have "inflight (checkQueue (requeue job q)) = inflight q @ ds"
    using c(1) by (simp add: requeue_def)
  moreover have "filter (\<lambda>e. priority e = priority job) ds
                   @ priorityQueues (checkQueue (requeue job q)) (priority job)
                 = job # priorityQueues q (priority job)"
    using c(2) by (simp add: requeue_def)
  ultimately show ?thesis by blast
qed

text \<open>Both conditions hold along every run: the lock is free between calls, and every
  waiting entry sits on the lane of its priority.\<close>

lemma checkQueue_keeps_lanes:
  assumes "lanes_by_priority (priorityQueues q)"
  shows "lanes_by_priority (priorityQueues (checkQueue q))"
proof -
  have "lane_defined 1" by (simp add: lane_defined_def)
  from checkQueue_lane_order[OF assms this] show ?thesis by blast
qed

lemma checkQueue_keeps_lock: "processingLock (checkQueue q) = processingLock q"
  by (simp add: checkQueue_def)

lemma funpow_checkQueue_keeps:
  "lanes_by_priority (priorityQueues q) \<and> \<not> processingLock q \<Longrightarrow>
   lanes_by_priority (priorityQueues ((checkQueue ^^ n) q)) \<and> \<not> processingLock ((checkQueue ^^ n) q)"
  by (induction n) (simp_all add: checkQueue_keeps_lanes checkQueue_keeps_lock)

lemma addJob_links_keeps:
  "lanes_by_priority (priorityQueues q) \<and> \<not> processingLock q \<Longrightarrow>
   lanes_by_priority (priorityQueues (state_of (addJob_links i m p links q)))
   \<and> \<not> processingLock (state_of (addJob_links i m p links q))"
proof (induction links arbitrary: q)
  case Nil
  then show ?case by simp
next
  case (Cons link links)
  show ?case
  proof (cases "lane_defined p")
    case False
    then show ?thesis using Cons.prems by simp
  next
    case True
    let ?mk = "\<lambda>l. \<lparr>data = l, max_attempts = m, attempts = 0, ip = i, priority = p\<rparr>"
    let ?q1 = "q\<lparr>priorityQueues := (priorityQueues q)(p := priorityQueues q p @ [?mk link])\<rparr>"
    let ?q2 = "?q1\<lparr>users := set_user i (incr (users ?q1 i)) (users ?q1)\<rparr>"
    have "lanes_by_priority (priorityQueues ?q2)"
      using Cons.prems by (auto simp: lanes_by_priority_def)
    then have "lanes_by_priority (priorityQueues (checkQueue ?q2)) \<and> \<not> processingLock (checkQueue ?q2)"
      using Cons.prems by (simp add: checkQueue_keeps_lanes checkQueue_keeps_lock)
    from Cons.IH[OF this] show ?thesis using True by (simp add: Let_def)
  qed
qed

lemma reachable_lanes_by_priority:
  "reachable q \<Longrightarrow> lanes_by_priority (priorityQueues q) \<and> \<not> processingLock q"
proof (induction rule: reachable.induct)
  case initial
  show ?case by (simp add: new_queue_def lanes_by_priority_def)
next
  case (step q e q')
  note k = checkQueue_keeps_lanes checkQueue_keeps_lock
  show ?case
  proof (cases e)
    case (AddJob i links m p)
    let ?q0 = "if \<not> has_user (users q) i then q\<lparr>users := set_user i (Count 0) (users q)\<rparr> else q"
    have "lanes_by_priority (priorityQueues ?q0) \<and> \<not> processingLock ?q0" using step.IH by simp
    from addJob_links_keeps[OF this, of i m p links] show ?thesis
      using step.hyps(2) AddJob by (simp add: addJob_def)
  next
    case (Process c)
    then show ?thesis using step by (auto simp: process_def start_def k split: if_splits)
  next
    case (Tick n)
    have "lanes_by_priority (priorityQueues (q\<lparr>concurrency := n\<rparr>))
          \<and> \<not> processingLock (q\<lparr>concurrency := n\<rparr>)" using step.IH by simp
    from funpow_checkQueue_keeps[OF this, of "nat (n - concurrency q)"] show ?thesis
      using step Tick by (auto simp: tick_def Let_def split: if_splits)
  next
    case Start
    then show ?thesis using step by (auto simp: start_def k split: if_splits)
  next
    case Pause
    then show ?thesis using step by (auto simp: pause_def split: if_splits)
  next
    case (Resolved n d)
    then show ?thesis using step by (auto simp: then_callback_def split: if_splits)
  next
    case (Rejected n err)
    then show ?thesis using step by (auto simp: catch_callback_def Let_def split: if_splits)
  next
    case (DelayElapsed n)
    then show ?thesis using step by (auto split: if_splits)
  next
    case Finally
    then show ?thesis using step by (auto simp: finally_callback_def Let_def k split: if_splits)
  next
    case (BackoffElapsed n)
    let ?job = "snd (backoff q ! n)"
    let ?q0 = "q\<lparr>backoff := remove_nth n (backoff q)\<rparr>"
    have w: "lanes_by_priority (priorityQueues (requeue ?job ?q0))"
      using step.IH by (auto simp: lanes_by_priority_def requeue_def)
    have l: "\<not> processingLock (requeue ?job ?q0)" using step.IH by (simp add: requeue_def)
    have "lanes_by_priority (priorityQueues (state_of (backoff_callback ?job ?q0)))
          \<and> \<not> processingLock (state_of (backoff_callback ?job ?q0))"
      using w l step.IH by (simp add: backoff_callback_def k)
    then show ?thesis using step.hyps(2) BackoffElapsed by (auto split: if_splits)
  qed
qed

subsection \<open>Concrete runs\<close>

lemma three_waiting_state:
  "three_waiting =
     \<lparr>priorityQueues = (\<lambda>_. [])
        (3 := [\<lparr>data = ''x'', max_attempts = 3, attempts = 0, ip = ''9.9.9.9'', priority = 3\<rparr>,
               \<lparr>data = ''y'', max_attempts = 3, attempts = 0, ip = ''9.9.9.9'', priority = 3\<rparr>],
         5 := [\<lparr>data = ''z'', max_attempts = 3, attempts = 0, ip = ''8.8.8.8'', priority = 5\<rparr>]),
       users = [''9.9.9.9'' \<mapsto> Count 2, ''8.8.8.8'' \<mapsto> Count 1], running = False,
       activeJobsCount = 0, concurrency = 0, processingLock = False, inflight = [],
       pacing = [], finishing = 0, backoff = [], emitted = []\<rparr>"
  by (simp add: three_waiting_def addJob_def Let_def lane_defined_def has_user_def set_user_def
      Object_prototype_def new_queue_def checkQueue_def checkQueue_loop.simps fun_eq_iff)

lemma two_enqueued_state:
  "two_enqueued =
     \<lparr>priorityQueues = (\<lambda>_. [])
        (3 := [\<lparr>data = ''X'', max_attempts = 3, attempts = 0, ip = ''9.9.9.9'', priority = 3\<rparr>,
               \<lparr>data = ''R'', max_attempts = 3, attempts = 0, ip = ''9.9.9.9'', priority = 3\<rparr>]),
       users = [''9.9.9.9'' \<mapsto> Count 2], running = False,
       activeJobsCount = 0, concurrency = 0, processingLock = False, inflight = [],
       pacing = [], finishing = 0, backoff = [], emitted = []\<rparr>"
  by (simp add: two_enqueued_def addJob_def Let_def lane_defined_def has_user_def set_user_def
      Object_prototype_def new_queue_def checkQueue_def checkQueue_loop.simps fun_eq_iff)

lemma overtaking_run_state:
  "fire_all overtaking_run two_enqueued =
     Some \<lparr>priorityQueues = (\<lambda>_. [])
        (3 := [\<lparr>data = ''X'', max_attempts = 3, attempts = 0, ip = ''9.9.9.9'', priority = 3\<rparr>]),
       users = [''9.9.9.9'' \<mapsto> Count 2], running = True,
       activeJobsCount = 1, concurrency = 1, processingLock = False,
       inflight = [\<lparr>data = ''R'', max_attempts = 3, attempts = 0, ip = ''9.9.9.9'', priority = 3\<rparr>],
       pacing = [], finishing = 0, backoff = [], emitted = []\<rparr>"
  by (simp add: overtaking_run_def two_enqueued_state process_def start_def tick_def Let_def
      lane_defined_def checkQueue_def checkQueue_loop.simps size_q_def lanes_size_def dequeue_def
      catch_callback_def count_attempt_def backoffDelay_def finally_callback_def
      backoff_callback_def requeue_def remove_nth_def fun_eq_iff)

text \<open>
  C1. Whenever some lane 1..5 is non-empty, the scan of \<open>checkQueue\<close> removes the head of
  the first non-empty lane in the order 1, 2, 3, 4, 5. A call of \<open>checkQueue\<close> that finds
  the lock free hands to the handler, one after the other, the first entries of the lanes
  read in that order, as many as the loop makes rounds, and leaves the others waiting as
  they were: every lane only loses entries at its head, and while an entry is left on a
  lane no entry of a lane of lower priority has been taken. Within one lane the entries
  leave from the head. Where every waiting entry sits on the lane of its priority, as it
  does along every run, \<open>addJob\<close> puts its entries at the tail: the entries of the lane
  that the call dispatches, followed by those it leaves on the lane, are the entries that
  waited followed by the new ones in the order of the job's links. The retry timer puts its
  entry at the head, before every entry that waits on the lane.
\<close>

theorem checkQueue_strict_priority_head_first:
  assumes "lane_defined p"
  shows "(priorityQueues q p \<noteq> [] \<longrightarrow>
            (\<exists>p0 job rest. lane_defined p0 \<and> p0 \<le> p
               \<and> (\<forall>p'. lane_defined p' \<and> p' < p0 \<longrightarrow> priorityQueues q p' = [])
               \<and> priorityQueues q p0 = job # rest
               \<and> dequeue (priorityQueues q) = Some (job, (priorityQueues q)(p0 := rest))))
    \<and> (\<not> processingLock q \<longrightarrow>
          inflight (checkQueue q) = inflight q @ take (dispatch_count q) (waiting (priorityQueues q))
          \<and> waiting (priorityQueues (checkQueue q)) = drop (dispatch_count q) (waiting (priorityQueues q))
          \<and> (\<forall>p'. \<exists>n. priorityQueues (checkQueue q) p' = drop n (priorityQueues q p'))
          \<and> (\<forall>p1 p2. lane_defined p1 \<and> p1 < p2 \<and> priorityQueues (checkQueue q) p1 \<noteq> []
                \<longrightarrow> priorityQueues (checkQueue q) p2 = priorityQueues q p2))
    \<and> (lanes_by_priority (priorityQueues q) \<longrightarrow>
          (\<exists>q' ds. addJob i links m p q = Normal q' \<and> inflight q' = inflight q @ ds
             \<and> filter (\<lambda>e. priority e = p) ds @ priorityQueues q' p
                 = priorityQueues q p
                   @ map (\<lambda>l. \<lparr>data = l, max_attempts = m, attempts = 0, ip = i, priority = p\<rparr>) links))
    \<and> (lanes_by_priority (priorityQueues q) \<and> priority job = p \<longrightarrow>
          (\<exists>q' ds. backoff_callback job q = Normal q' \<and> inflight q' = inflight q @ ds
             \<and> filter (\<lambda>e. priority e = p) ds @ priorityQueues q' p = job # priorityQueues q p))"
proof -
  have a: "priorityQueues q p \<noteq> [] \<longrightarrow>
            (\<exists>p0 job rest. lane_defined p0 \<and> p0 \<le> p
               \<and> (\<forall>p'. lane_defined p' \<and> p' < p0 \<longrightarrow> priorityQueues q p' = [])
               \<and> priorityQueues q p0 = job # rest
               \<and> dequeue (priorityQueues q) = Some (job, (priorityQueues q)(p0 := rest)))"
    using dequeue_first[of p "priorityQueues q", OF assms] by blast
  have b: "\<not> processingLock q \<longrightarrow>
          inflight (checkQueue q) = inflight q @ take (dispatch_count q) (waiting (priorityQueues q))
          \<and> waiting (priorityQueues (checkQueue q)) = drop (dispatch_count q) (waiting (priorityQueues q))
          \<and> (\<forall>p'. \<exists>n. priorityQueues (checkQueue q) p' = drop n (priorityQueues q p'))
          \<and> (\<forall>p1 p2. lane_defined p1 \<and> p1 < p2 \<and> priorityQueues (checkQueue q) p1 \<noteq> []
                \<longrightarrow> priorityQueues (checkQueue q) p2 = priorityQueues q p2)"
    using checkQueue_dispatch[of q] by blast
  have c: "lanes_by_priority (priorityQueues q) \<longrightarrow>
          (\<exists>q' ds. addJob i links m p q = Normal q' \<and> inflight q' = inflight q @ ds
             \<and> filter (\<lambda>e. priority e = p) ds @ priorityQueues q' p
                 = priorityQueues q p
                   @ map (\<lambda>l. \<lparr>data = l, max_attempts = m, attempts = 0, ip = i, priority = p\<rparr>) links)"
    using addJob_lane_order[OF assms, of q i links m] by blast
  have d: "lanes_by_priority (priorityQueues q) \<and> priority job = p \<longrightarrow>
          (\<exists>q' ds. backoff_callback job q = Normal q' \<and> inflight q' = inflight q @ ds
             \<and> filter (\<lambda>e. priority e = p) ds @ priorityQueues q' p = job # priorityQueues q p)"
  proof
    assume h: "lanes_by_priority (priorityQueues q) \<and> priority job = p"
    then have l: "lane_defined (priority job)" using assms by simp
    from backoff_callback_lane_order[OF l, of q] h
    show "\<exists>q' ds. backoff_callback job q = Normal q' \<and> inflight q' = inflight q @ ds
             \<and> filter (\<lambda>e. priority e = p) ds @ priorityQueues q' p = job # priorityQueues q p"
      by auto
  qed
  show ?thesis using a b c d by blast
qed

theorem checkQueue_strict_priority_head_first_witness:
  "lane_defined 3
   \<and> dequeue (priorityQueues three_waiting)
       = Some (\<lparr>data = ''x'', max_attempts = 3, attempts = 0, ip = ''9.9.9.9'', priority = 3\<rparr>,
               (priorityQueues three_waiting)
                 (3 := [\<lparr>data = ''y'', max_attempts = 3, attempts = 0, ip = ''9.9.9.9'', priority = 3\<rparr>]))
   \<and> inflight (process 2 three_waiting)
       = [\<lparr>data = ''x'', max_attempts = 3, attempts = 0, ip = ''9.9.9.9'', priority = 3\<rparr>,
          \<lparr>data = ''y'', max_attempts = 3, attempts = 0, ip = ''9.9.9.9'', priority = 3\<rparr>]
   \<and> waiting (priorityQueues (process 2 three_waiting))
       = [\<lparr>data = ''z'', max_attempts = 3, attempts = 0, ip = ''8.8.8.8'', priority = 5\<rparr>]
   \<and> lanes_by_priority (priorityQueues three_waiting)
   \<and> (\<exists>q' ds. addJob ''7.7.7.7'' [''L'', ''M''] 3 3 three_waiting = Normal q'
          \<and> inflight q' = ds
          \<and> filter (\<lambda>e. priority e = 3) ds @ priorityQueues q' 3
              = [\<lparr>data = ''x'', max_attempts = 3, attempts = 0, ip = ''9.9.9.9'', priority = 3\<rparr>,
                 \<lparr>data = ''y'', max_attempts = 3, attempts = 0, ip = ''9.9.9.9'', priority = 3\<rparr>,
                 \<lparr>data = ''L'', max_attempts = 3, attempts = 0, ip = ''7.7.7.7'', priority = 3\<rparr>,
                 \<lparr>data = ''M'', max_attempts = 3, attempts = 0, ip = ''7.7.7.7'', priority = 3\<rparr>])
   \<and> (\<exists>q' ds. backoff_callback \<lparr>data = ''w'', max_attempts = 3, attempts = 1, ip = ''9.9.9.9'', priority = 3\<rparr>
                  three_waiting = Normal q'
          \<and> inflight q' = ds
          \<and> filter (\<lambda>e. priority e = 3) ds @ priorityQueues q' 3
              = [\<lparr>data = ''w'', max_attempts = 3, attempts = 1, ip = ''9.9.9.9'', priority = 3\<rparr>,
                 \<lparr>data = ''x'', max_attempts = 3, attempts = 0, ip = ''9.9.9.9'', priority = 3\<rparr>,
                 \<lparr>data = ''y'', max_attempts = 3, attempts = 0, ip = ''9.9.9.9'', priority = 3\<rparr>])"
proof -
  let ?x = "\<lparr>data = ''x'', max_attempts = 3, attempts = 0, ip = ''9.9.9.9'', priority = 3\<rparr>"
  let ?y = "\<lparr>data = ''y'', max_attempts = 3, attempts = 0, ip = ''9.9.9.9'', priority = 3\<rparr>"
  let ?z = "\<lparr>data = ''z'', max_attempts = 3, attempts = 0, ip = ''8.8.8.8'', priority = 5\<rparr>"
  let ?w = "\<lparr>data = ''w'', max_attempts = 3, attempts = 1, ip = ''9.9.9.9'', priority = 3\<rparr>"
  let ?s = "three_waiting\<lparr>concurrency := 2, running := True\<rparr>"
  have l: "lane_defined 3" by (simp add: lane_defined_def)
  have pq: "priorityQueues three_waiting 1 = []" "priorityQueues three_waiting 2 = []"
    "priorityQueues three_waiting 3 = [?x, ?y]" "priorityQueues three_waiting 4 = []"
    "priorityQueues three_waiting 5 = [?z]" "inflight three_waiting = []"
    by (simp_all add: three_waiting_state)
  have w: "lanes_by_priority (priorityQueues three_waiting)"
    by (auto simp: lanes_by_priority_def three_waiting_state)
  have s: "process 2 three_waiting = checkQueue ?s"
    by (simp add: process_def start_def three_waiting_state)
  have f: "\<not> processingLock ?s" "inflight ?s = []" "dispatch_count ?s = 2"
    "waiting (priorityQueues ?s) = [?x, ?y, ?z]"
    by (simp_all add: three_waiting_state dispatch_count_def size_q_def lanes_size_def waiting_def)
  note T = checkQueue_strict_priority_head_first[OF l, where q = three_waiting
      and i = "''7.7.7.7''" and links = "[''L'', ''M'']" and m = 3 and job = ?w]
  from T pq(3) obtain p0 job rest where
    h: "lane_defined p0" "p0 \<le> 3"
       "\<forall>p'. lane_defined p' \<and> p' < p0 \<longrightarrow> priorityQueues three_waiting p' = []"
       "priorityQueues three_waiting p0 = job # rest"
       "dequeue (priorityQueues three_waiting) = Some (job, (priorityQueues three_waiting)(p0 := rest))"
    by auto
  have "p0 = 3"
  proof -
    have "p0 \<noteq> 1" "p0 \<noteq> 2" "p0 \<noteq> 0" using h(1,4) pq(1,2) by (auto simp: lane_defined_def)
    then show ?thesis using h(2) by arith
  qed
  then have a: "dequeue (priorityQueues three_waiting)
       = Some (?x, (priorityQueues three_waiting)(3 := [?y]))"
    using h(4,5) pq(3) by simp
  note U = checkQueue_strict_priority_head_first[OF l, where q = ?s]
  from U f(1) have "inflight (checkQueue ?s)
                      = inflight ?s @ take (dispatch_count ?s) (waiting (priorityQueues ?s))"
    and "waiting (priorityQueues (checkQueue ?s))
                      = drop (dispatch_count ?s) (waiting (priorityQueues ?s))"
    by blast+
  then have b: "inflight (process 2 three_waiting) = [?x, ?y]"
    and c: "waiting (priorityQueues (process 2 three_waiting)) = [?z]"
    by (simp_all only: s f) simp_all
  from T w obtain q' ds where
    "addJob ''7.7.7.7'' [''L'', ''M''] 3 3 three_waiting = Normal q'"
    "inflight q' = inflight three_waiting @ ds"
    "filter (\<lambda>e. priority e = 3) ds @ priorityQueues q' 3
       = priorityQueues three_waiting 3
         @ map (\<lambda>l. \<lparr>data = l, max_attempts = 3, attempts = 0, ip = ''7.7.7.7'', priority = 3\<rparr>)
             [''L'', ''M'']"
    by blast
  then have d: "\<exists>q' ds. addJob ''7.7.7.7'' [''L'', ''M''] 3 3 three_waiting = Normal q'
          \<and> inflight q' = ds
          \<and> filter (\<lambda>e. priority e = 3) ds @ priorityQueues q' 3
              = [?x, ?y,
                 \<lparr>data = ''L'', max_attempts = 3, attempts = 0, ip = ''7.7.7.7'', priority = 3\<rparr>,
                 \<lparr>data = ''M'', max_attempts = 3, attempts = 0, ip = ''7.7.7.7'', priority = 3\<rparr>]"
    using pq(3,6) by simp
  have "priority ?w = 3" by simp
  with T w obtain q'' ds' where
    "backoff_callback ?w three_waiting = Normal q''"
    "inflight q'' = inflight three_waiting @ ds'"
    "filter (\<lambda>e. priority e = 3) ds' @ priorityQueues q'' 3 = ?w # priorityQueues three_waiting 3"
    by blast
  then have e: "\<exists>q' ds. backoff_callback ?w three_waiting = Normal q'
          \<and> inflight q' = ds
          \<and> filter (\<lambda>e. priority e = 3) ds @ priorityQueues q' 3 = [?w, ?x, ?y]"
    using pq(3,6) by simp
  show ?thesis using l a b c w d e by blast
qed

text \<open>
  Read as first in, first out, the order within a lane fails for retried entries. The
  links \<open>X\<close> and \<open>R\<close> of one job are enqueued on lane 3 in this order and dispatched in
  this order. Both are rejected with \<open>NoBotsAvailable\<close> while no bot is ready, and their
  retry timers fire in the same order: each puts its entry at the head, so \<open>R\<close> comes to
  stand before \<open>X\<close>. When a bot is ready again, \<open>R\<close> is dispatched and \<open>X\<close>, which
  entered the lane first both times, still waits.
\<close>

theorem retried_entry_overtakes_counterexample:
  "fire (AddJob ''9.9.9.9'' [''X'', ''R''] 3 3) new_queue = Some two_enqueued
   \<and> priorityQueues two_enqueued 3
       = [\<lparr>data = ''X'', max_attempts = 3, attempts = 0, ip = ''9.9.9.9'', priority = 3\<rparr>,
          \<lparr>data = ''R'', max_attempts = 3, attempts = 0, ip = ''9.9.9.9'', priority = 3\<rparr>]
   \<and> fire_all overtaking_run two_enqueued = Some overtaken
   \<and> inflight overtaken
       = [\<lparr>data = ''R'', max_attempts = 3, attempts = 0, ip = ''9.9.9.9'', priority = 3\<rparr>]
   \<and> priorityQueues overtaken 3
       = [\<lparr>data = ''X'', max_attempts = 3, attempts = 0, ip = ''9.9.9.9'', priority = 3\<rparr>]"
proof -
  have a: "fire (AddJob ''9.9.9.9'' [''X'', ''R''] 3 3) new_queue = Some two_enqueued"
    by (simp add: two_enqueued_def)
  have b: "priorityQueues two_enqueued 3
       = [\<lparr>data = ''X'', max_attempts = 3, attempts = 0, ip = ''9.9.9.9'', priority = 3\<rparr>,
          \<lparr>data = ''R'', max_attempts = 3, attempts = 0, ip = ''9.9.9.9'', priority = 3\<rparr>]"
    by (simp add: two_enqueued_state)
  have c: "fire_all overtaking_run two_enqueued = Some overtaken"
    by (simp add: overtaken_def overtaking_run_state)
  have d: "inflight overtaken
       = [\<lparr>data = ''R'', max_attempts = 3, attempts = 0, ip = ''9.9.9.9'', priority = 3\<rparr>]"
    by (simp add: overtaken_def overtaking_run_state)
  have e: "priorityQueues overtaken 3
       = [\<lparr>data = ''X'', max_attempts = 3, attempts = 0, ip = ''9.9.9.9'', priority = 3\<rparr>]"
    by (simp add: overtaken_def overtaking_run_state)
  show ?thesis using a b c d e by blast
qed


section \<open>Per-caller accounting along every run\<close>

lemma count_ip_mset: "count_ip i es = size (filter_mset (\<lambda>e. ip e = i) (mset es))"
  by (simp add: count_ip_def flip: mset_filter)

lemma accounted_cong:
  assumes "accounted q" and "users q' = users q" and "mset (outstanding q') = mset (outstanding q)"
  shows "accounted q'"
proof -
  have "set (outstanding q') = set (outstanding q)" using assms(3) by (rule mset_eq_setD)
  moreover have "\<And>i. count_ip i (outstanding q') = count_ip i (outstanding q)"
    using assms(3) by (simp add: count_ip_mset)
  ultimately show ?thesis using assms(1,2) by (simp add: accounted_def)
qed

lemma waiting_upd:
  assumes "lane_defined p"
  shows "mset (waiting (pq(p := xs))) + mset (pq p) = mset (waiting pq) + mset xs"
proof -
  have "p = 1 \<or> p = 2 \<or> p = 3 \<or> p = 4 \<or> p = 5"
    using assms by (auto simp: lane_defined_def)
  then show ?thesis by (auto simp: waiting_def)
qed

lemma dequeue_waiting:
  assumes "dequeue pq = Some (job, pq')"
  shows "mset (waiting pq) = add_mset job (mset (waiting pq'))"
proof -
  from dequeue_Some[OF assms] obtain p rest where
    h: "lane_defined p" "pq p = job # rest" "pq' = pq(p := rest)" by blast
  have "mset (waiting (pq(p := rest))) + mset (job # rest) = mset (waiting pq) + mset rest"
    using waiting_upd[OF h(1), of pq rest] by (simp only: h(2))
  then have "add_mset job (mset (waiting (pq(p := rest)))) + mset rest = mset (waiting pq) + mset rest"
    by simp
  then have "add_mset job (mset (waiting (pq(p := rest)))) = mset (waiting pq)"
    by (simp only: add_right_cancel)
  then show ?thesis by (simp only: h(3))
qed

lemma checkQueue_loop_frame:
  "users (checkQueue_loop q) = users q \<and> backoff (checkQueue_loop q) = backoff q
   \<and> emitted (checkQueue_loop q) = emitted q \<and> pacing (checkQueue_loop q) = pacing q
   \<and> finishing (checkQueue_loop q) = finishing q \<and> running (checkQueue_loop q) = running q
   \<and> concurrency (checkQueue_loop q) = concurrency q
   \<and> processingLock (checkQueue_loop q) = processingLock q
   \<and> mset (waiting (priorityQueues (checkQueue_loop q))) + mset (inflight (checkQueue_loop q))
       = mset (waiting (priorityQueues q)) + mset (inflight q)"
proof (induction q rule: checkQueue_loop.induct)
  case (1 q)
  show ?case
  proof (cases "running q \<and> size_q q > 0 \<and> activeJobsCount q < concurrency q")
    case False
    then have "checkQueue_loop q = q" by (subst checkQueue_loop.simps) auto
    then show ?thesis by simp
  next
    case True
    show ?thesis
    proof (cases "dequeue (priorityQueues q)")
      case None
      then have "checkQueue_loop q = q" using True by (subst checkQueue_loop.simps) simp
      then show ?thesis by simp
    next
      case (Some a)
      obtain job pq' where a: "a = (job, pq')" by (cases a)
      let ?q' = "q\<lparr>priorityQueues := pq', activeJobsCount := activeJobsCount q + 1,
                     inflight := inflight q @ [job]\<rparr>"
      have e: "checkQueue_loop q = checkQueue_loop ?q'"
        using True Some a by (subst checkQueue_loop.simps) simp
      have ih: "users (checkQueue_loop ?q') = users ?q' \<and> backoff (checkQueue_loop ?q') = backoff ?q'
   \<and> emitted (checkQueue_loop ?q') = emitted ?q' \<and> pacing (checkQueue_loop ?q') = pacing ?q'
   \<and> finishing (checkQueue_loop ?q') = finishing ?q' \<and> running (checkQueue_loop ?q') = running ?q'
   \<and> concurrency (checkQueue_loop ?q') = concurrency ?q'
   \<and> processingLock (checkQueue_loop ?q') = processingLock ?q'
   \<and> mset (waiting (priorityQueues (checkQueue_loop ?q'))) + mset (inflight (checkQueue_loop ?q'))
       = mset (waiting (priorityQueues ?q')) + mset (inflight ?q')"
        using "1.IH"[OF True Some a[symmetric]] .
      have w: "mset (waiting (priorityQueues q)) = add_mset job (mset (waiting pq'))"
        using dequeue_waiting Some a by simp
      show ?thesis using ih w by (simp add: e)
    qed
  qed
qed

lemma checkQueue_frame:
  "users (checkQueue q) = users q \<and> backoff (checkQueue q) = backoff q
   \<and> emitted (checkQueue q) = emitted q \<and> pacing (checkQueue q) = pacing q
   \<and> finishing (checkQueue q) = finishing q \<and> running (checkQueue q) = running q
   \<and> concurrency (checkQueue q) = concurrency q
   \<and> processingLock (checkQueue q) = processingLock q
   \<and> mset (outstanding (checkQueue q)) = mset (outstanding q)"
proof (cases "processingLock q")
  case True
  then show ?thesis by (simp add: checkQueue_def)
next
  case False
  let ?q = "q\<lparr>processingLock := True\<rparr>"
  have "checkQueue q = (checkQueue_loop ?q)\<lparr>processingLock := False\<rparr>"
    using False by (simp add: checkQueue_def)
  then show ?thesis using checkQueue_loop_frame[of ?q] False by (simp add: outstanding_def)
qed

lemma checkQueue_accounted: "accounted q \<Longrightarrow> accounted (checkQueue q)"
  using checkQueue_frame[of q] accounted_cong[of q "checkQueue q"] by simp


lemma set_user_other: "j \<noteq> i \<Longrightarrow> set_user i c us j = us j"
  by (simp add: set_user_def)

lemma set_user_own: "us i \<noteq> None \<or> i \<noteq> ''__proto__'' \<Longrightarrow> set_user i c us = us(i \<mapsto> c)"
  by (auto simp: set_user_def)

lemma set_user_cases: "set_user i c us i = us i \<or> set_user i c us i = Some c"
  by (simp add: set_user_def)

lemma proto_name: "''__proto__'' \<in> set Object_prototype"
  by (simp add: Object_prototype_def)

lemma set_user_ordinary: "i \<notin> set Object_prototype \<Longrightarrow> set_user i c us = us(i \<mapsto> c)"
  using proto_name by (auto simp: set_user_def)

lemma accounted_getUser:
  assumes "accounted q" and "i \<notin> set Object_prototype"
  shows "getUserQueuedAmt q i = Amount (int (count_ip i (outstanding q)))"
proof -
  have a: "acct (users q i) (count_ip i (outstanding q))" using assms by (simp add: accounted_def)
  show ?thesis
  proof (cases "users q i")
    case None
    then show ?thesis using a assms(2) by (simp add: getUserQueuedAmt_def)
  next
    case (Some c)
    then show ?thesis using a by (cases c) (simp_all add: getUserQueuedAmt_def)
  qed
qed

lemma userDone_acct:
  assumes "acct (us i) (Suc n)"
  shows "acct (userDone i us i) n"
proof (cases "us i")
  case None
  then show ?thesis using assms by simp
next
  case (Some c)
  then show ?thesis using assms by (cases c) (auto simp: userDone_def Let_def set_user_def)
qed

lemma userDone_other: "j \<noteq> i \<Longrightarrow> userDone i us j = us j"
  by (simp add: userDone_def Let_def set_user_def)

lemma userDone_not_zero: "userDone i us i \<noteq> Some (Count 0)"
  by (auto simp: userDone_def Let_def set_user_def)

lemma not_counted_decr:
  assumes "\<forall>c. us i \<noteq> Some (Count c)"
  shows "userDone j us i \<noteq> Some (Count c)"
proof (cases "j = i")
  case False
  then show ?thesis using assms by (simp add: userDone_other)
next
  case True
  have "decr (us i) = NaN" using assms by (cases "us i" rule: decr.cases) simp_all
  then have "userDone i us = set_user i NaN us" by (simp add: userDone_def Let_def)
  then show ?thesis using True assms set_user_cases[of i NaN us] by auto
qed

lemma not_counted_incr:
  assumes "\<forall>c. us i \<noteq> Some (Count c)"
  shows "set_user j (incr (us j)) us i \<noteq> Some (Count c)"
proof (cases "j = i")
  case False
  then show ?thesis using assms by (simp add: set_user_other)
next
  case True
  have "incr (us i) = NaN" using assms by (cases "us i" rule: incr.cases) simp_all
  then show ?thesis using True assms set_user_cases[of i NaN us] by auto
qed

lemma accounted_remove:
  assumes "accounted q"
    and "mset (outstanding q) = add_mset job (mset (outstanding q'))"
    and "users q' = userDone (ip job) (users q)"
  shows "accounted q'"
proof -
  have c: "\<And>i. count_ip i (outstanding q) = count_ip i (outstanding q') + (if ip job = i then 1 else 0)"
    using assms(2) by (simp add: count_ip_mset)
  have s: "set (outstanding q') \<subseteq> set (outstanding q)"
  proof -
    have "set_mset (mset (outstanding q')) \<subseteq> set_mset (mset (outstanding q))"
      by (simp only: assms(2)) auto
    then show ?thesis by simp
  qed
  have 1: "acct (users q' i) (count_ip i (outstanding q'))" if o: "i \<notin> set Object_prototype" for i
  proof (cases "i = ip job")
    case True
    have a: "acct (users q i) (count_ip i (outstanding q))"
      using assms(1) o by (simp add: accounted_def)
    have "acct (users q i) (Suc (count_ip i (outstanding q')))"
      using a c[of i] True by simp
    from userDone_acct[of "users q" i, OF this] show ?thesis using True assms(3) by simp
  next
    case False
    have a: "acct (users q i) (count_ip i (outstanding q))"
      using assms(1) o by (simp add: accounted_def)
    have "acct (users q i) (count_ip i (outstanding q'))"
      using a c[of i] False by simp
    then show ?thesis using False assms(3) by (simp add: userDone_other)
  qed
  have 2: "users q' i \<noteq> Some (Count n)" if o: "i \<in> set Object_prototype" for i n
  proof -
    have "\<forall>c. users q i \<noteq> Some (Count c)" using assms(1) o by (simp add: accounted_def)
    from not_counted_decr[of "users q" i "ip job" n, OF this] show ?thesis by (simp add: assms(3))
  qed
  have 3: "\<forall>e \<in> set (outstanding q'). lane_defined (priority e)"
    using assms(1) s by (auto simp: accounted_def)
  show ?thesis using 1 2 3 by (simp add: accounted_def)
qed

lemma accounted_move:
  assumes "accounted q"
    and "mset (outstanding q) = add_mset job M"
    and "mset (outstanding q') = add_mset job' M"
    and "ip job' = ip job" and "priority job' = priority job"
    and "users q' = users q"
  shows "accounted q'"
proof -
  have c: "\<And>i. count_ip i (outstanding q') = count_ip i (outstanding q)"
    using assms(2,3,4) by (simp add: count_ip_mset)
  have "set_mset (mset (outstanding q')) = insert job' (set_mset M)"
    by (simp only: assms(3)) simp
  then have s': "set (outstanding q') = insert job' (set_mset M)" by simp
  have "set_mset (mset (outstanding q)) = insert job (set_mset M)"
    by (simp only: assms(2)) simp
  then have s: "set (outstanding q) = insert job (set_mset M)" by simp
  have "\<forall>e \<in> set (outstanding q'). lane_defined (priority e)"
    using assms(1,5) s s' by (auto simp: accounted_def)
  then show ?thesis using assms(1,6) c by (simp add: accounted_def)
qed

lemma accounted_add:
  assumes "accounted q"
    and "mset (outstanding q') = add_mset e (mset (outstanding q))"
    and "users q' = set_user (ip e) (incr (users q (ip e))) (users q)"
    and "has_user (users q) (ip e)" and "lane_defined (priority e)"
  shows "accounted q'"
proof -
  have c: "\<And>i. count_ip i (outstanding q') = count_ip i (outstanding q) + (if ip e = i then 1 else 0)"
    using assms(2) by (simp add: count_ip_mset)
  have "set_mset (mset (outstanding q')) = insert e (set_mset (mset (outstanding q)))"
    by (simp only: assms(2)) simp
  then have s: "set (outstanding q') = insert e (set (outstanding q))" by simp
  have 1: "acct (users q' i) (count_ip i (outstanding q'))" if o: "i \<notin> set Object_prototype" for i
  proof (cases "i = ip e")
    case True
    have a: "acct (users q i) (count_ip i (outstanding q))"
      using assms(1) o by (simp add: accounted_def)
    obtain c0 where c0: "users q i = Some c0" using assms(4) True o by (auto simp: has_user_def)
    have "users q' i = Some (incr (users q i))"
      using assms(3) True o by (simp add: set_user_ordinary)
    then show ?thesis using a c0 True c[of i] by (cases c0) simp_all
  next
    case False
    have a: "acct (users q i) (count_ip i (outstanding q))"
      using assms(1) o by (simp add: accounted_def)
    then show ?thesis using False assms(3) c[of i] by (simp add: set_user_other)
  qed
  have 2: "users q' i \<noteq> Some (Count n)" if o: "i \<in> set Object_prototype" for i n
  proof -
    have "\<forall>c. users q i \<noteq> Some (Count c)" using assms(1) o by (simp add: accounted_def)
    from not_counted_incr[of "users q" i "ip e" n, OF this] show ?thesis by (simp add: assms(3))
  qed
  have 3: "\<forall>x \<in> set (outstanding q'). lane_defined (priority x)"
    using assms(1,5) s by (auto simp: accounted_def)
  show ?thesis using 1 2 3 by (simp add: accounted_def)
qed

lemma mset_remove_nth:
  assumes "k < length xs"
  shows "mset xs = add_mset (xs ! k) (mset (remove_nth k xs))"
proof -
  have "xs = take k xs @ xs ! k # drop (Suc k) xs" using assms by (rule id_take_nth_drop)
  then have "mset xs = mset (take k xs @ xs ! k # drop (Suc k) xs)" by simp
  then show ?thesis by (simp add: remove_nth_def)
qed


lemma outstanding_inflight_removed:
  assumes "k < length (inflight q)"
  shows "mset (outstanding q)
           = add_mset (inflight q ! k) (mset (outstanding (q\<lparr>inflight := remove_nth k (inflight q)\<rparr>)))"
  using mset_remove_nth[OF assms] by (simp add: outstanding_def)

lemma then_callback_accounted:
  assumes "accounted q" and "k < length (inflight q)"
  shows "accounted (then_callback (inflight q ! k) d (q\<lparr>inflight := remove_nth k (inflight q)\<rparr>))"
proof -
  let ?q0 = "q\<lparr>inflight := remove_nth k (inflight q)\<rparr>"
  let ?q' = "then_callback (inflight q ! k) d ?q0"
  have o: "outstanding ?q' = outstanding ?q0" by (simp add: then_callback_def outstanding_def)
  have "mset (outstanding q) = add_mset (inflight q ! k) (mset (outstanding ?q'))"
    using outstanding_inflight_removed[OF assms(2)] by (simp only: o)
  moreover have "users ?q' = userDone (ip (inflight q ! k)) (users q)"
    by (simp add: then_callback_def)
  ultimately show ?thesis using assms(1) by (rule accounted_remove[rotated])
qed

lemma count_attempt_fields:
  "ip (count_attempt err job) = ip job \<and> priority (count_attempt err job) = priority job
   \<and> max_attempts (count_attempt err job) = max_attempts job
   \<and> data (count_attempt err job) = data job"
  by (simp add: count_attempt_def)

lemma catch_callback_accounted:
  assumes "accounted q" and "k < length (inflight q)"
  shows "accounted (catch_callback (inflight q ! k) err (q\<lparr>inflight := remove_nth k (inflight q)\<rparr>))"
proof -
  let ?job = "inflight q ! k"
  let ?job' = "count_attempt err ?job"
  let ?q0 = "q\<lparr>inflight := remove_nth k (inflight q)\<rparr>"
  let ?q' = "catch_callback ?job err ?q0"
  have r: "mset (outstanding q) = add_mset ?job (mset (outstanding ?q0))"
    using outstanding_inflight_removed[OF assms(2)] .
  show ?thesis
  proof (cases "attempts ?job' \<ge> max_attempts ?job'")
    case True
    have o: "outstanding ?q' = outstanding ?q0"
      using True by (simp add: catch_callback_def Let_def outstanding_def)
    have "mset (outstanding q) = add_mset ?job (mset (outstanding ?q'))"
      using r by (simp only: o)
    moreover have "users ?q' = userDone (ip ?job) (users q)"
      using True by (simp add: catch_callback_def Let_def count_attempt_fields)
    ultimately show ?thesis using assms(1) by (rule accounted_remove[rotated])
  next
    case False
    have "mset (outstanding ?q') = add_mset ?job' (mset (outstanding ?q0))"
      using False by (simp add: catch_callback_def Let_def outstanding_def)
    moreover have "users ?q' = users q"
      using False by (simp add: catch_callback_def Let_def)
    ultimately show ?thesis
      using accounted_move[OF assms(1) r, of ?q' ?job'] count_attempt_fields[of err ?job] by simp
  qed
qed

lemma requeue_outstanding:
  assumes "k < length (backoff q)" and "lane_defined (priority (snd (backoff q ! k)))"
  shows "mset (outstanding (requeue (snd (backoff q ! k)) (q\<lparr>backoff := remove_nth k (backoff q)\<rparr>)))
           = mset (outstanding q)"
proof -
  let ?job = "snd (backoff q ! k)"
  let ?pq = "priorityQueues q"
  have w: "mset (waiting (?pq(priority ?job := ?job # ?pq (priority ?job)))) + mset (?pq (priority ?job))
             = mset (waiting ?pq) + mset (?job # ?pq (priority ?job))"
    using waiting_upd[OF assms(2)] .
  then have "mset (waiting (?pq(priority ?job := ?job # ?pq (priority ?job)))) + mset (?pq (priority ?job))
             = add_mset ?job (mset (waiting ?pq)) + mset (?pq (priority ?job))" by simp
  then have w': "mset (waiting (?pq(priority ?job := ?job # ?pq (priority ?job))))
             = add_mset ?job (mset (waiting ?pq))" by (simp only: add_right_cancel)
  have "mset (backoff q) = add_mset (backoff q ! k) (mset (remove_nth k (backoff q)))"
    using mset_remove_nth[OF assms(1)] .
  then have "image_mset snd (mset (backoff q))
               = image_mset snd (add_mset (backoff q ! k) (mset (remove_nth k (backoff q))))"
    by (rule arg_cong)
  then have b: "add_mset ?job (image_mset snd (mset (remove_nth k (backoff q))))
                  = image_mset snd (mset (backoff q))"
    by simp
  show ?thesis by (simp add: requeue_def outstanding_def w' b)
qed

lemma backoff_callback_accounted:
  assumes "accounted q" and "k < length (backoff q)"
  shows "accounted (state_of (backoff_callback (snd (backoff q ! k)) (q\<lparr>backoff := remove_nth k (backoff q)\<rparr>)))"
proof -
  let ?job = "snd (backoff q ! k)"
  let ?q0 = "q\<lparr>backoff := remove_nth k (backoff q)\<rparr>"
  have "?job \<in> set (map snd (backoff q))" using assms(2) by (metis length_map nth_map nth_mem)
  then have "?job \<in> set (outstanding q)" by (simp add: outstanding_def)
  then have l: "lane_defined (priority ?job)" using assms(1) by (simp add: accounted_def)
  have "accounted (requeue ?job ?q0)"
    using accounted_cong[OF assms(1) _ requeue_outstanding[OF assms(2) l]] by (simp add: requeue_def)
  then have "accounted (checkQueue (requeue ?job ?q0))" by (rule checkQueue_accounted)
  then show ?thesis using l by (simp add: backoff_callback_def)
qed

lemma funpow_checkQueue_accounted: "accounted q \<Longrightarrow> accounted ((checkQueue ^^ n) q)"
  by (induction n) (simp_all add: checkQueue_accounted)

lemma finally_callback_accounted:
  assumes "accounted q"
  shows "accounted (finally_callback (q\<lparr>finishing := n\<rparr>))"
proof -
  let ?q1 = "q\<lparr>finishing := n, activeJobsCount := activeJobsCount q - 1\<rparr>"
  have a: "accounted ?q1" using accounted_cong[OF assms, of ?q1] by (simp add: outstanding_def)
  show ?thesis using a checkQueue_accounted[OF a] by (simp add: finally_callback_def Let_def)
qed

lemma start_accounted: assumes "accounted q" shows "accounted (start q)"
proof -
  have a: "accounted (q\<lparr>running := True\<rparr>)"
    using accounted_cong[OF assms, of "q\<lparr>running := True\<rparr>"] by (simp add: outstanding_def)
  show ?thesis using assms checkQueue_accounted[OF a] by (simp add: start_def)
qed

lemma process_accounted: assumes "accounted q" shows "accounted (process c q)"
proof -
  have a: "accounted (q\<lparr>concurrency := c\<rparr>)"
    using accounted_cong[OF assms, of "q\<lparr>concurrency := c\<rparr>"] by (simp add: outstanding_def)
  show ?thesis using start_accounted[OF a] by (simp add: process_def)
qed

lemma pause_accounted: assumes "accounted q" shows "accounted (pause q)"
proof -
  have a: "accounted (q\<lparr>running := False\<rparr>)"
    using accounted_cong[OF assms, of "q\<lparr>running := False\<rparr>"] by (simp add: outstanding_def)
  show ?thesis using assms a by (simp add: pause_def)
qed

lemma tick_accounted: assumes "accounted q" shows "accounted (tick n q)"
proof -
  have a: "accounted (q\<lparr>concurrency := n\<rparr>)"
    using accounted_cong[OF assms, of "q\<lparr>concurrency := n\<rparr>"] by (simp add: outstanding_def)
  show ?thesis using a funpow_checkQueue_accounted[OF a] by (simp add: tick_def Let_def)
qed


lemma addJob_links_accounted:
  assumes "accounted q" and "has_user (users q) i" and "lane_defined p"
  shows "\<exists>q'. addJob_links i m p links q = Normal q' \<and> accounted q' \<and> has_user (users q') i
          \<and> count_ip i (outstanding q') = count_ip i (outstanding q) + length links"
  using assms(1,2)
proof (induction links arbitrary: q)
  case Nil
  then show ?case by simp
next
  case (Cons link links)
  let ?e = "\<lparr>data = link, max_attempts = m, attempts = 0, ip = i, priority = p\<rparr>"
  let ?q1 = "q\<lparr>priorityQueues := (priorityQueues q)(p := priorityQueues q p @ [?e])\<rparr>"
  let ?q2 = "?q1\<lparr>users := set_user i (incr (users ?q1 i)) (users ?q1)\<rparr>"
  have w: "mset (waiting ((priorityQueues q)(p := priorityQueues q p @ [?e]))) + mset (priorityQueues q p)
             = mset (waiting (priorityQueues q)) + mset (priorityQueues q p @ [?e])"
    using waiting_upd[OF assms(3)] .
  then have "mset (waiting ((priorityQueues q)(p := priorityQueues q p @ [?e]))) + mset (priorityQueues q p)
             = add_mset ?e (mset (waiting (priorityQueues q))) + mset (priorityQueues q p)" by simp
  then have w': "mset (waiting ((priorityQueues q)(p := priorityQueues q p @ [?e])))
             = add_mset ?e (mset (waiting (priorityQueues q)))" by (simp only: add_right_cancel)
  have o2: "mset (outstanding ?q2) = add_mset ?e (mset (outstanding q))"
    by (simp add: outstanding_def w')
  have a2: "accounted ?q2"
    using accounted_add[OF Cons.prems(1) o2] Cons.prems(2) assms(3) by simp
  have c2: "count_ip i (outstanding ?q2) = Suc (count_ip i (outstanding q))"
    using o2 by (simp add: count_ip_mset)
  have u2: "has_user (users ?q2) i"
    using Cons.prems(2) by (auto simp: has_user_def set_user_def)
  have a3: "accounted (checkQueue ?q2)" using a2 by (rule checkQueue_accounted)
  have u3: "has_user (users (checkQueue ?q2)) i" using checkQueue_frame[of ?q2] u2 by simp
  have c3: "count_ip i (outstanding (checkQueue ?q2)) = Suc (count_ip i (outstanding q))"
    using checkQueue_frame[of ?q2] c2 by (simp add: count_ip_mset)
  from Cons.IH[OF a3 u3] obtain q' where
    h: "addJob_links i m p links (checkQueue ?q2) = Normal q'" "accounted q'" "has_user (users q') i"
       "count_ip i (outstanding q') = count_ip i (outstanding (checkQueue ?q2)) + length links"
    by blast
  have "addJob_links i m p (link # links) q = Normal q'"
    using h(1) assms(3) by (simp add: Let_def)
  then show ?case using h(2,3,4) c3 by simp
qed

lemma addJob_init_accounted:
  assumes "accounted q"
  shows "accounted (if \<not> has_user (users q) i then q\<lparr>users := set_user i (Count 0) (users q)\<rparr> else q)
         \<and> has_user (users (if \<not> has_user (users q) i then q\<lparr>users := set_user i (Count 0) (users q)\<rparr> else q)) i
         \<and> outstanding (if \<not> has_user (users q) i then q\<lparr>users := set_user i (Count 0) (users q)\<rparr> else q) = outstanding q"
proof (cases "has_user (users q) i")
  case False
  then have o: "i \<notin> set Object_prototype" and n: "users q i = None" by (simp_all add: has_user_def)
  have "acct (users q i) (count_ip i (outstanding q))" using assms o by (simp add: accounted_def)
  then have z: "count_ip i (outstanding q) = 0" using n by simp
  have e: "set_user i (Count 0) (users q) = (users q)(i \<mapsto> Count 0)" using o by (rule set_user_ordinary)
  have "accounted (q\<lparr>users := (users q)(i \<mapsto> Count 0)\<rparr>)"
    using assms z o by (auto simp: accounted_def outstanding_def)
  then show ?thesis using False e by (simp add: outstanding_def has_user_def)
next
  case True
  then show ?thesis using assms by simp
qed

lemma addJob_accounted:
  assumes "accounted q"
  shows "accounted (state_of (addJob i links m p q))"
proof (cases "lane_defined p")
  case True
  let ?q0 = "if \<not> has_user (users q) i then q\<lparr>users := set_user i (Count 0) (users q)\<rparr> else q"
  have a: "accounted ?q0" "has_user (users ?q0) i" using addJob_init_accounted[OF assms, of i] by simp_all
  from addJob_links_accounted[OF a True, of m links] obtain q' where
    "addJob_links i m p links ?q0 = Normal q'" "accounted q'" by blast
  then show ?thesis by (simp add: addJob_def)
next
  case False
  let ?q0 = "if \<not> has_user (users q) i then q\<lparr>users := set_user i (Count 0) (users q)\<rparr> else q"
  have a: "accounted ?q0" using addJob_init_accounted[OF assms, of i] by simp
  have "state_of (addJob_links i m p links ?q0) = ?q0" using False by (cases links) simp_all
  then show ?thesis using a by (simp add: addJob_def)
qed

lemma new_queue_accounted: "accounted new_queue"
  by (simp add: accounted_def new_queue_def outstanding_def waiting_def count_ip_def)

lemma reachable_accounted: "reachable q \<Longrightarrow> accounted q"
proof (induction rule: reachable.induct)
  case initial
  show ?case by (rule new_queue_accounted)
next
  case (step q e q')
  show ?case
  proof (cases e)
    case (AddJob i links m p)
    then show ?thesis using step addJob_accounted by auto
  next
    case (Process c)
    then show ?thesis using step process_accounted by auto
  next
    case (Tick n)
    then show ?thesis using step tick_accounted by auto
  next
    case Start
    then show ?thesis using step start_accounted by auto
  next
    case Pause
    then show ?thesis using step pause_accounted by auto
  next
    case (Resolved k d)
    then show ?thesis using step then_callback_accounted by (auto split: if_splits)
  next
    case (Rejected k err)
    with step have k: "k < length (inflight q)" by (auto split: if_splits)
    let ?c = "catch_callback (inflight q ! k) err (q\<lparr>inflight := remove_nth k (inflight q)\<rparr>)"
    have q': "q' = ?c\<lparr>finishing := Suc (finishing q)\<rparr>" using step Rejected k by simp
    have "accounted ?c" using catch_callback_accounted[OF step.IH k] .
    from accounted_cong[OF this, of q'] show ?thesis using q' by (simp add: outstanding_def)
  next
    case (DelayElapsed k)
    with step have q': "q' = q\<lparr>pacing := remove_nth k (pacing q), finishing := Suc (finishing q)\<rparr>"
      by (auto split: if_splits)
    from accounted_cong[OF step.IH, of q'] show ?thesis using q' by (simp add: outstanding_def)
  next
    case Finally
    then show ?thesis using step finally_callback_accounted by (auto split: if_splits)
  next
    case (BackoffElapsed k)
    then show ?thesis using step backoff_callback_accounted by (auto split: if_splits)
  qed
qed

text \<open>For a caller whose address is not the name of a member of \<open>Object.prototype\<close>,
  \<open>getUserQueuedAmt\<close> is the number of the caller's outstanding entries in every state a
  run reaches. Under such a name it never is a positive number.\<close>

lemma ordinary_caller_counted:
  assumes "reachable q" and "i \<notin> set Object_prototype"
  shows "getUserQueuedAmt q i = Amount (int (count_ip i (outstanding q)))"
  using accounted_getUser[OF reachable_accounted[OF assms(1)] assms(2)] .

lemma prototype_name_not_counted:
  assumes "reachable q" and "i \<in> set Object_prototype"
  shows "getUserQueuedAmt q i = Amount 0 \<or> getUserQueuedAmt q i = Prototype_member"
proof -
  have n: "\<forall>c. users q i \<noteq> Some (Count c)"
    using reachable_accounted[OF assms(1)] assms(2) by (simp add: accounted_def)
  show ?thesis
  proof (cases "users q i")
    case None
    then show ?thesis using assms(2) by (simp add: getUserQueuedAmt_def)
  next
    case (Some c)
    then show ?thesis using n by (cases c) (simp_all add: getUserQueuedAmt_def)
  qed
qed

subsection \<open>A concrete run\<close>

lemma process_eval: "process 1 (new_queue :: (string, string) queue) =
   \<lparr>priorityQueues = (\<lambda>_. []), users = Map.empty, running = True,
     activeJobsCount = 0, concurrency = 1, processingLock = False, inflight = [],
     pacing = [], finishing = 0, backoff = [], emitted = []\<rparr>"
  by (simp add: process_def start_def checkQueue_def checkQueue_loop.simps new_queue_def
      size_q_def lanes_size_def)

lemma ordinary_address_in: "(''9.9.9.9'' \<in> set Object_prototype) = False"
  by (simp add: Object_prototype_def)

lemmas one_request_eval = one_request_def process_eval addJob_def Let_def lane_defined_def
  has_user_def set_user_def ordinary_address_in
  checkQueue_def checkQueue_loop.simps size_q_def lanes_size_def dequeue_def

lemma one_request_inflight:
  "inflight (one_request m)
     = [\<lparr>data = ''L'', max_attempts = m, attempts = 0, ip = ''9.9.9.9'', priority = 4\<rparr>]"
  by (simp add: one_request_eval)

lemma one_request_users: "users (one_request m) ''9.9.9.9'' = Some (Count 1)"
  by (simp add: one_request_eval)

lemma one_request_reachable: "reachable (one_request m)"
proof -
  have "reachable (new_queue :: (string, string) queue)" by (rule reachable.initial)
  moreover have "fire (Process 1) (new_queue :: (string, string) queue) = Some (process 1 new_queue)"
    by simp
  ultimately have "reachable (process 1 (new_queue :: (string, string) queue))"
    by (rule reachable.step)
  moreover have "fire (AddJob ''9.9.9.9'' [''L''] m 4) (process 1 new_queue) = Some (one_request m)"
    by (simp add: one_request_def)
  ultimately show ?thesis by (rule reachable.step)
qed

lemma one_request_rejected_fire:
  "fire (Rejected 0 (OtherError ''Timeout'')) (one_request 3) = Some one_request_rejected"
  by (simp add: one_request_rejected_def one_request_inflight)

lemma one_request_rejected_reachable: "reachable one_request_rejected"
  using one_request_reachable one_request_rejected_fire by (rule reachable.step)

lemma one_request_rejected_backoff:
  "backoff one_request_rejected
     = [(1000, \<lparr>data = ''L'', max_attempts = 3, attempts = 1, ip = ''9.9.9.9'', priority = 4\<rparr>)]"
  by (simp add: one_request_rejected_def one_request_inflight catch_callback_def count_attempt_def
      backoffDelay_def Let_def one_request_eval)

lemma constructor_name: "''constructor'' \<in> set Object_prototype"
  by (simp add: Object_prototype_def)

lemmas constructor_request_eval = constructor_request_def process_eval addJob_def Let_def
  lane_defined_def has_user_def set_user_def constructor_name
  checkQueue_def checkQueue_loop.simps size_q_def lanes_size_def dequeue_def

lemma constructor_request_state:
  "constructor_request =
     \<lparr>priorityQueues = (\<lambda>_. []), users = [''constructor'' \<mapsto> NaN], running = True,
       activeJobsCount = 1, concurrency = 1, processingLock = False,
       inflight = [\<lparr>data = ''L'', max_attempts = 3, attempts = 0, ip = ''constructor'', priority = 4\<rparr>],
       pacing = [], finishing = 0, backoff = [], emitted = []\<rparr>"
  by (simp add: constructor_request_eval fun_eq_iff)

lemma constructor_resolved_state:
  "constructor_resolved =
     \<lparr>priorityQueues = (\<lambda>_. []), users = [''constructor'' \<mapsto> NaN], running = True,
       activeJobsCount = 1, concurrency = 1, processingLock = False,
       inflight = [], pacing = [0], finishing = 0, backoff = [], emitted = []\<rparr>"
  by (simp add: constructor_resolved_def constructor_request_state then_callback_def
      userDone_def set_user_def remove_nth_def Let_def)

text \<open>
  C3. For a caller whose address is the name of a member of \<open>Object.prototype\<close> the
  counter is lost. With one ready bot, the caller \<open>constructor\<close> adds one entry:
  \<open>ip in this.users\<close> is true although the caller has no counter, so none is set to 0,
  and \<open>users[ip]++\<close> stores NaN. The entry is outstanding (it is with the handler) while
  \<open>getUserQueuedAmt\<close> returns 0. When the handler resolves, \<open>users[ip]--\<close> stores NaN
  again, which is not \<open>=== 0\<close>: the property stays. The same run of the caller
  \<open>9.9.9.9\<close> counts 1.
\<close>

theorem users_counter_lost_for_inherited_name:
  "fire (Process 1) (new_queue :: (string, string) queue) = Some (process 1 new_queue)
   \<and> \<not> has_user (users (process 1 (new_queue :: (string, string) queue))) ''9.9.9.9''
   \<and> has_user (users (process 1 (new_queue :: (string, string) queue))) ''constructor''
   \<and> fire (AddJob ''constructor'' [''L''] 3 4) (process 1 new_queue) = Some constructor_request
   \<and> outstanding constructor_request
       = [\<lparr>data = ''L'', max_attempts = 3, attempts = 0, ip = ''constructor'', priority = 4\<rparr>]
   \<and> count_ip ''constructor'' (outstanding constructor_request) = 1
   \<and> users constructor_request ''constructor'' = Some NaN
   \<and> getUserQueuedAmt constructor_request ''constructor'' = Amount 0
   \<and> fire (Resolved 0 None) constructor_request = Some constructor_resolved
   \<and> outstanding constructor_resolved = []
   \<and> users constructor_resolved ''constructor'' = Some NaN
   \<and> getUserQueuedAmt constructor_resolved ''constructor'' = Amount 0
   \<and> count_ip ''9.9.9.9'' (outstanding (one_request 3)) = 1
   \<and> getUserQueuedAmt (one_request 3) ''9.9.9.9'' = Amount 1"
proof -
  have p: "fire (Process 1) (new_queue :: (string, string) queue) = Some (process 1 new_queue)"
    by simp
  have h: "\<not> has_user (users (process 1 (new_queue :: (string, string) queue))) ''9.9.9.9''"
    "has_user (users (process 1 (new_queue :: (string, string) queue))) ''constructor''"
    by (simp_all add: process_eval has_user_def Object_prototype_def)
  have a: "fire (AddJob ''constructor'' [''L''] 3 4) (process 1 new_queue) = Some constructor_request"
    by (simp add: constructor_request_def)
  have o: "outstanding constructor_request
       = [\<lparr>data = ''L'', max_attempts = 3, attempts = 0, ip = ''constructor'', priority = 4\<rparr>]"
    by (simp add: constructor_request_state outstanding_def waiting_def)
  have c: "count_ip ''constructor'' (outstanding constructor_request) = 1"
    by (simp add: o count_ip_def)
  have u: "users constructor_request ''constructor'' = Some NaN"
    by (simp add: constructor_request_state)
  have g: "getUserQueuedAmt constructor_request ''constructor'' = Amount 0"
    by (simp add: getUserQueuedAmt_def u)
  have r: "fire (Resolved 0 None) constructor_request = Some constructor_resolved"
    by (simp add: constructor_resolved_def constructor_request_state)
  have o': "outstanding constructor_resolved = []"
    by (simp add: constructor_resolved_state outstanding_def waiting_def)
  have u': "users constructor_resolved ''constructor'' = Some NaN"
    by (simp add: constructor_resolved_state)
  have g': "getUserQueuedAmt constructor_resolved ''constructor'' = Amount 0"
    by (simp add: getUserQueuedAmt_def u')
  have n: "count_ip ''9.9.9.9'' (outstanding (one_request 3)) = 1"
    by (simp add: one_request_eval outstanding_def waiting_def count_ip_def)
  have m: "getUserQueuedAmt (one_request 3) ''9.9.9.9'' = Amount 1"
    by (simp add: getUserQueuedAmt_def one_request_users)
  show ?thesis using p h a o c u g r o' u' g' n m by blast
qed

theorem users_counter_lost_for_inherited_name_witness:
  "has_user (users (process 1 (new_queue :: (string, string) queue))) ''constructor''
   \<and> count_ip ''constructor'' (outstanding constructor_request) = 1
   \<and> getUserQueuedAmt constructor_request ''constructor'' = Amount 0
   \<and> users constructor_resolved ''constructor'' = Some NaN"
  using users_counter_lost_for_inherited_name by blast

section \<open>The retry policy\<close>



section \<open>The bounded cache\<close>

lemma length_update_le: "length (AList.update k v al) \<le> Suc (length al)"
  by (induction al) auto

lemma evict_head:
  assumes "distinct (map fst (cache c))" and "int (length (cache c)) \<ge> maxEntries c"
  shows "evict_oldest c = tl (cache c)"
proof (cases "cache c")
  case Nil
  then show ?thesis using assms(2) by (simp add: evict_oldest_def)
next
  case (Cons x xs)
  obtain k v where x: "x = (k, v)" by (cases x)
  have "k \<notin> fst ` set xs" using assms(1) Cons x by auto
  then have "AList.delete k xs = xs" by simp
  then show ?thesis using assms(2) Cons x by (simp add: evict_oldest_def AList.delete_eq)
qed

lemma evict_distinct:
  "distinct (map fst (cache c)) \<Longrightarrow> distinct (map fst (evict_oldest c))"
  by (auto simp: evict_oldest_def AList.distinct_delete split: list.splits)

lemma evict_length:
  assumes "1 \<le> maxEntries c" and "int (length (cache c)) \<le> maxEntries c"
  shows "int (length (evict_oldest c)) < maxEntries c"
proof (cases "int (length (cache c)) \<ge> maxEntries c")
  case False
  then show ?thesis by (simp add: evict_oldest_def)
next
  case True
  then obtain k v xs where c: "cache c = (k, v) # xs" using assms(1) by (cases "cache c") auto
  have f: "length (filter (\<lambda>(k', _). k \<noteq> k') xs) \<le> length xs" by (rule length_filter_le)
  have e: "evict_oldest c = filter (\<lambda>(k', _). k \<noteq> k') xs"
    using True c by (simp add: evict_oldest_def AList.delete_eq)
  have "int (length (cache c)) = 1 + int (length xs)" using c by simp
  then show ?thesis unfolding e using f assms(2) by linarith
qed

lemma built_inv:
  assumes "built n c"
  shows "maxEntries c = n \<and> distinct (map fst (cache c)) \<and> (1 \<le> n \<longrightarrow> int (length (cache c)) \<le> n)"
  using assms
proof (induction rule: built.induct)
  case (fresh n)
  show ?case by (simp add: new_MemoryCache_def)
next
  case (insert n c it pr now)
  have d: "distinct (map fst (cache (insertItemData it pr now c)))"
    using insert.IH evict_distinct[of c] by (simp add: insertItemData_def AList.distinct_update)
  have "1 \<le> n \<longrightarrow> int (length (cache (insertItemData it pr now c))) \<le> n"
  proof
    assume n: "1 \<le> n"
    have "int (length (evict_oldest c)) < n" using evict_length[of c] insert.IH n by simp
    moreover have "length (AList.update (generateKey_asset it) \<lparr>item = it, price = or_null pr, timestamp = now\<rparr> (evict_oldest c))
                     \<le> Suc (length (evict_oldest c))" by (rule length_update_le)
    ultimately show "int (length (cache (insertItemData it pr now c))) \<le> n"
      by (simp add: insertItemData_def)
  qed
  then show ?case using d insert.IH by (simp add: insertItemData_def)
next
  case (reprice n c k pr)
  show ?case
  proof (cases "map_of (cache c) k")
    case None
    then show ?thesis using reprice.IH by (simp add: updateItemPrice_def)
  next
    case (Some e)
    then have "k \<in> fst ` set (cache c)" by (metis map_of_eq_None_iff option.distinct(1))
    then have "map fst (AList.update k (e\<lparr>price := pr\<rparr>) (cache c)) = map fst (cache c)"
      by (simp add: AList.update_keys)
    then have "distinct (map fst (AList.update k (e\<lparr>price := pr\<rparr>) (cache c)))
             \<and> length (AList.update k (e\<lparr>price := pr\<rparr>) (cache c)) = length (cache c)"
      using reprice.IH by (metis length_map)
    then show ?thesis using Some reprice.IH by (simp add: updateItemPrice_def)
  qed
next
  case (sweep n c now)
  have l: "int (length (cache (cleanup now c))) \<le> int (length (cache c))"
    by (simp add: cleanup_def)
  have d: "distinct (map fst (cache (cleanup now c)))"
    using sweep.IH by (simp add: cleanup_def distinct_map_filter)
  have m: "maxEntries (cleanup now c) = n" using sweep.IH by (simp add: cleanup_def)
  show ?case using sweep.IH l d m by auto
qed

lemma insert_full_fresh_keys:
  assumes "distinct (map fst (cache c))" and "int (length (cache c)) = maxEntries c"
    and "1 \<le> maxEntries c" and "generateKey_asset it \<notin> fst ` set (cache c)"
  shows "map fst (cache (insertItemData it pr now c)) = tl (map fst (cache c)) @ [generateKey_asset it]"
proof -
  have e: "evict_oldest c = tl (cache c)" using evict_head[OF assms(1)] assms(2) by simp
  have "generateKey_asset it \<notin> fst ` set (tl (cache c))"
    using assms(4) by (cases "cache c") auto
  then have "map fst (AList.update (generateKey_asset it) \<lparr>item = it, price = or_null pr, timestamp = now\<rparr> (tl (cache c)))
               = map fst (tl (cache c)) @ [generateKey_asset it]"
    by (simp add: AList.update_keys)
  then show ?thesis by (simp add: insertItemData_def e map_tl)
qed

lemma insert_all_fresh_keys:
  assumes "distinct (map fst (cache c))" and "int (length (cache c)) = maxEntries c"
    and "1 \<le> maxEntries c"
    and "distinct (map key_of ins)"
    and "set (map key_of ins) \<inter> fst ` set (cache c) = {}"
  shows "map fst (cache (insert_all ins c))
           = drop (length ins) (map fst (cache c) @ map key_of ins)
         \<and> int (length (cache (insert_all ins c))) = maxEntries c"
  using assms
proof (induction ins arbitrary: c)
  case Nil
  then show ?case by simp
next
  case (Cons x ins)
  obtain it pr now where x: "x = (it, pr, now)" by (cases x)
  let ?c' = "insertItemData it pr now c"
  have kx: "key_of x = generateKey_asset it" using x by (simp add: key_of_def)
  have fresh: "generateKey_asset it \<notin> fst ` set (cache c)" using Cons.prems(5) kx by auto
  have k: "map fst (cache ?c') = tl (map fst (cache c)) @ [generateKey_asset it]"
    using insert_full_fresh_keys[OF Cons.prems(1,2,3) fresh] .
  have ne: "cache c \<noteq> []" using Cons.prems(2,3) by auto
  have m: "maxEntries ?c' = maxEntries c" by (simp add: insertItemData_def)
  have l: "int (length (cache ?c')) = maxEntries ?c'"
  proof -
    have "length (map fst (cache ?c')) = length (tl (map fst (cache c)) @ [generateKey_asset it])"
      by (simp only: k)
    then have "length (cache ?c') = length (cache c)" using ne by simp
    then show ?thesis using Cons.prems(2) m by simp
  qed
  have d: "distinct (map fst (cache ?c'))"
  proof -
    have "distinct (tl (map fst (cache c)))" using Cons.prems(1) by (rule distinct_tl)
    moreover have "generateKey_asset it \<notin> set (tl (map fst (cache c)))"
      using fresh ne by (cases "cache c") auto
    ultimately show ?thesis by (simp add: k)
  qed
  have d2: "distinct (map key_of ins)" using Cons.prems(4) by simp
  have i2: "set (map key_of ins) \<inter> fst ` set (cache ?c') = {}"
  proof -
    have "fst ` set (cache ?c') = set (map fst (cache ?c'))" by simp
    also have "\<dots> \<subseteq> fst ` set (cache c) \<union> {generateKey_asset it}"
      using ne by (simp only: k) (cases "cache c", auto)
    finally have sub: "fst ` set (cache ?c') \<subseteq> fst ` set (cache c) \<union> {generateKey_asset it}" .
    have "set (map key_of ins) \<inter> (fst ` set (cache c) \<union> {generateKey_asset it}) = {}"
      using Cons.prems(4,5) kx by auto
    then show ?thesis using sub by blast
  qed
  from Cons.IH[OF d l _ d2 i2] Cons.prems(3) m
  have ih: "map fst (cache (insert_all ins ?c')) = drop (length ins) (map fst (cache ?c') @ map key_of ins)"
    "int (length (cache (insert_all ins ?c'))) = maxEntries ?c'" by simp_all
  have "drop (length ins) (map fst (cache ?c') @ map key_of ins)
          = drop (Suc (length ins)) (map fst (cache c) @ map key_of (x # ins))"
    using ne kx by (simp add: k) (cases "cache c", simp_all add: drop_Cons')
  then show ?case using ih x m by simp
qed

lemmas cache_eval = insert_all.simps insertItemData_def evict_oldest_def new_MemoryCache_def
  generateKey_asset_def asset_def or_null_def AList.delete_eq key_of_def

lemma three_assets_cache:
  "map fst (cache three_assets) = [Some ''A'', Some ''B'', Some ''C'']"
  by (simp add: three_assets_def cache_eval)

lemma three_assets_built: "built 3 three_assets"
  unfolding three_assets_def insert_all.simps
  by (intro built.insert built.fresh)

text \<open>
  C4 (as amended). For a cache made by \<open>new MemoryCache(n)\<close> with \<open>n \<ge> 1\<close> and any
  calls of its methods: after every \<open>insertItemData\<close> the cache holds at most \<open>n\<close>
  entries; an insert into a cache that holds \<open>n\<close> entries first removes the entry at the
  head of the map's iteration order, that is the entry whose key has been in the map
  longest (overwriting a present key does not move it), and then writes; and inserting
  \<open>N\<close> items with distinct keys that are not in the full cache leaves exactly the keys
  that remain when the first \<open>N\<close> of the old keys followed by the new keys are dropped.
\<close>

theorem insertItemData_bounded_fifo:
  assumes "built n c" and "1 \<le> n"
  shows "int (length (cache (insertItemData it pr now c))) \<le> n
     \<and> (int (length (cache c)) = n \<longrightarrow>
          cache (insertItemData it pr now c)
            = AList.update (generateKey_asset it) \<lparr>item = it, price = or_null pr, timestamp = now\<rparr>
                (tl (cache c)))
     \<and> (int (length (cache c)) = n \<and> distinct (map key_of ins)
          \<and> set (map key_of ins) \<inter> fst ` set (cache c) = {} \<longrightarrow>
          map fst (cache (insert_all ins c)) = drop (length ins) (map fst (cache c) @ map key_of ins))"
proof -
  have i: "maxEntries c = n" "distinct (map fst (cache c))" using built_inv[OF assms(1)] by simp_all
  have "built n (insertItemData it pr now c)" using assms(1) by (rule built.insert)
  from built_inv[OF this] have 1: "int (length (cache (insertItemData it pr now c))) \<le> n"
    using assms(2) by simp
  have 2: "int (length (cache c)) = n \<longrightarrow>
          cache (insertItemData it pr now c)
            = AList.update (generateKey_asset it) \<lparr>item = it, price = or_null pr, timestamp = now\<rparr>
                (tl (cache c))"
    using evict_head[OF i(2)] i(1) by (simp add: insertItemData_def)
  have 3: "int (length (cache c)) = n \<and> distinct (map key_of ins)
          \<and> set (map key_of ins) \<inter> fst ` set (cache c) = {} \<longrightarrow>
          map fst (cache (insert_all ins c)) = drop (length ins) (map fst (cache c) @ map key_of ins)"
    using insert_all_fresh_keys[OF i(2), of ins] i(1) assms(2) by simp
  show ?thesis using 1 2 3 by blast
qed

theorem insertItemData_bounded_fifo_witness:
  "built 3 three_assets \<and> length (cache three_assets) = 3
   \<and> length (cache (insertItemData (asset ''D'') None 4 three_assets)) \<le> 3
   \<and> map fst (cache (insertItemData (asset ''D'') None 4 three_assets)) = [Some ''B'', Some ''C'', Some ''D'']
   \<and> map fst (cache (insert_all [(asset ''D'', None, 4), (asset ''E'', None, 5)] three_assets))
       = [Some ''C'', Some ''D'', Some ''E'']"
proof -
  let ?ins = "[(asset ''D'', None, 4), (asset ''E'', None, 5)] :: (params \<times> int option \<times> int) list"
  have l: "int (length (cache three_assets)) = 3"
    using three_assets_cache by (metis length_map length_Cons list.size(3) numeral_3_eq_3 of_nat_numeral)
  have k: "map key_of ?ins = [Some ''D'', Some ''E'']" by (simp add: key_of_def generateKey_asset_def asset_def)
  have f: "fst ` set (cache three_assets) = {Some ''A'', Some ''B'', Some ''C''}"
    using three_assets_cache by (metis list.simps(15) set_map set_empty2 empty_set)
  have t: "tl (cache three_assets) = cache (insert_all [(asset ''B'', None, 2), (asset ''C'', None, 3)] (new_MemoryCache 3))"
    by (simp add: three_assets_def cache_eval)
  have one: "(1::int) \<le> 3" by simp
  have dk: "distinct (map key_of ?ins)" unfolding k by simp
  have ik: "set (map key_of ?ins) \<inter> fst ` set (cache three_assets) = {}" unfolding k f by simp
  note T = insertItemData_bounded_fifo[OF three_assets_built one, of "asset ''D''" None 4 ?ins]
  from T have a: "int (length (cache (insertItemData (asset ''D'') None 4 three_assets))) \<le> 3"
    by (rule conjunct1)
  from T l have b: "cache (insertItemData (asset ''D'') None 4 three_assets)
            = AList.update (generateKey_asset (asset ''D'')) \<lparr>item = asset ''D'', price = or_null None, timestamp = 4\<rparr>
                (tl (cache three_assets))"
    by blast
  from T l dk ik have c: "map fst (cache (insert_all ?ins three_assets))
              = drop (length ?ins) (map fst (cache three_assets) @ map key_of ?ins)"
    by blast
  have b': "map fst (cache (insertItemData (asset ''D'') None 4 three_assets)) = [Some ''B'', Some ''C'', Some ''D'']"
    unfolding b t by (simp add: cache_eval)
  have c': "map fst (cache (insert_all ?ins three_assets)) = [Some ''C'', Some ''D'', Some ''E'']"
    unfolding c k three_assets_cache by simp
  show ?thesis using three_assets_built l a b' c' by simp
qed

text \<open>
  Read by time of insertion, the bound and the eviction order fail in two places. With capacity 3, insert A at time 1, B at 2,
  A again at 3 and C at 4: the map order is A, B, C, so the next insert evicts A, whose
  entry was inserted at time 3, and keeps B, inserted at time 2, which is the least
  recently inserted entry. And with \<open>maxEntries = 0\<close> a single insert leaves one entry.
\<close>

theorem eviction_ignores_reinsertion_counterexample:
  "\<not> least_recently_inserted (Some ''A'') refreshed_asset
   \<and> least_recently_inserted (Some ''B'') refreshed_asset
   \<and> int (length (cache refreshed_asset)) = maxEntries refreshed_asset
   \<and> map fst (cache (insertItemData (asset ''D'') None 5 refreshed_asset))
       = [Some ''B'', Some ''C'', Some ''D'']
   \<and> int (length (cache (insertItemData (asset ''A'') None 1 (new_MemoryCache 0)))) = 1
   \<and> maxEntries (insertItemData (asset ''A'') None 1 (new_MemoryCache 0)) = 0"
proof -
  have c: "cache refreshed_asset =
     [(Some ''A'', \<lparr>item = asset ''A'', price = None, timestamp = 3\<rparr>),
      (Some ''B'', \<lparr>item = asset ''B'', price = None, timestamp = 2\<rparr>),
      (Some ''C'', \<lparr>item = asset ''C'', price = None, timestamp = 4\<rparr>)]"
    by (simp add: refreshed_asset_def cache_eval)
  have m: "maxEntries refreshed_asset = 3" by (simp add: refreshed_asset_def cache_eval)
  have 1: "\<not> least_recently_inserted (Some ''A'') refreshed_asset"
    unfolding least_recently_inserted_def c by auto
  have 2: "least_recently_inserted (Some ''B'') refreshed_asset"
    unfolding least_recently_inserted_def c by auto
  have 3: "map fst (cache (insertItemData (asset ''D'') None 5 refreshed_asset))
       = [Some ''B'', Some ''C'', Some ''D'']"
    by (simp add: insertItemData_def evict_oldest_def c m generateKey_asset_def asset_def AList.delete_eq)
  have 4: "int (length (cache (insertItemData (asset ''A'') None 1 (new_MemoryCache 0 :: (string option, params) MemoryCache)))) = 1"
    by (simp add: cache_eval)
  have 5: "maxEntries (insertItemData (asset ''A'') None 1 (new_MemoryCache 0 :: (string option, params) MemoryCache)) = 0"
    by (simp add: cache_eval)
  show ?thesis using 1 2 3 4 5 c m by simp
qed

section \<open>Lookup in the cache of memory_cache.js\<close>

lemma getItemData_loop_eq:
  assumes "\<forall>l \<in> set ls. fields_of l \<noteq> None"
  shows "getItemData_loop c ls acc = Inr (acc @ List.map_filter (cached_item c) ls)"
  using assms
proof (induction ls arbitrary: acc)
  case Nil
  show ?case by (simp add: List.map_filter_simps)
next
  case (Cons l ls)
  from Cons.prems obtain p where p: "fields_of l = Some p" by auto
  have g: "getParams_or_self l = Inr (Some p)" using p by (cases l) simp_all
  have r: "\<forall>x \<in> set ls. fields_of x \<noteq> None" using Cons.prems by simp
  show ?case
  proof (cases "map_of c (generateKey p)")
    case None
    then have "cached_item c l = None" using p by (simp add: cached_item_def)
    then show ?thesis using Cons.IH[OF r, of acc] g None by (simp add: List.map_filter_simps)
  next
    case (Some e)
    then have "cached_item c l = Some (item e)" using p by (simp add: cached_item_def)
    then show ?thesis using Cons.IH[OF r, of "acc @ [item e]"] g Some
      by (simp add: List.map_filter_simps)
  qed
qed

lemma getItemData_loop_throws:
  assumes "\<exists>l \<in> set ls. fields_of l = None"
  shows "getItemData_loop c ls acc = Inl TypeError"
  using assms
proof (induction ls arbitrary: acc)
  case Nil
  then show ?case by simp
next
  case (Cons l ls)
  show ?case
  proof (cases "fields_of l")
    case None
    then show ?thesis by (cases l) simp_all
  next
    case (Some p)
    then have g: "getParams_or_self l = Inr (Some p)" by (cases l) simp_all
    have "\<exists>x \<in> set ls. fields_of x = None" using Cons.prems Some by auto
    from Cons.IH[OF this] show ?thesis using g by (simp split: option.splits)
  qed
qed

lemma cached_item_set: "set (List.map_filter (cached_item c) ls) \<subseteq> item ` snd ` set c"
proof
  fix x
  assume "x \<in> set (List.map_filter (cached_item c) ls)"
  then obtain l where "l \<in> set ls" "cached_item c l = Some x"
    by (auto simp: List.map_filter_def)
  then obtain p where "fields_of l = Some p" "map_option item (map_of c (generateKey p)) = Some x"
    by (auto simp: cached_item_def Option.bind_eq_Some_conv)
  then obtain e where "map_of c (generateKey p) = Some e" "x = item e" by auto
  then have "(generateKey p, e) \<in> set c" "x = item e" by (auto dest: map_of_SomeD)
  then show "x \<in> item ` snd ` set c" by force
qed

lemma length_map_filter_le: "length (List.map_filter f xs) \<le> length xs"
  by (simp add: List.map_filter_def)

lemma getItemData_keys_loop_eq:
  "getItemData_keys_loop c ks acc
     = acc @ List.map_filter (\<lambda>k. map_option (\<lambda>e. (item e, price e)) (map_of c k)) ks"
  by (induction ks arbitrary: acc) (auto simp: List.map_filter_simps split: option.splits)

text \<open>
  C10. \<open>getItemData\<close> of src/lib/memory_cache.js returns the empty list for an argument
  that is not an array. For an array whose elements all stand for an object of fields (the
  element itself, or what its \<open>getParams()\<close> returns) it returns the items of the present
  keys in the order of the argument, absent keys being skipped: the result is never longer
  than the argument, can be shorter, and consists of cached items only. For an array that
  holds \<open>null\<close> or \<open>undefined\<close>, or an element whose \<open>getParams()\<close> returns one of
  them, it throws. \<open>getItemData\<close> of the bounded class throws on an argument that cannot
  be iterated and answers an array of keys with the present entries, skipping the absent
  ones.
\<close>

theorem getItemData_skips_absent_on_links:
  "getItemData c NotIterable = Inr [] \<and> getItemData c (Iterable xs) = Inr []
   \<and> ((\<forall>l \<in> set links. fields_of l \<noteq> None) \<longrightarrow>
         getItemData c (Array links) = Inr (List.map_filter (cached_item c) links)
         \<and> length (List.map_filter (cached_item c) links) \<le> length links
         \<and> set (List.map_filter (cached_item c) links) \<subseteq> item ` snd ` set c)
   \<and> ((\<exists>l \<in> set links. fields_of l = None) \<longrightarrow> getItemData c (Array links) = Inl TypeError)
   \<and> getItemData_keys b NotIterable = Inl TypeError
   \<and> getItemData_keys b (Array ks)
       = Inr (List.map_filter (\<lambda>k. map_option (\<lambda>e. (item e, price e)) (map_of (cache b) k)) ks)"
proof -
  have 1: "(\<forall>l \<in> set links. fields_of l \<noteq> None) \<longrightarrow>
         getItemData c (Array links) = Inr (List.map_filter (cached_item c) links)
         \<and> length (List.map_filter (cached_item c) links) \<le> length links
         \<and> set (List.map_filter (cached_item c) links) \<subseteq> item ` snd ` set c"
    using getItemData_loop_eq[of links c "[]"] cached_item_set[of c links]
      length_map_filter_le[of "cached_item c" links] by simp
  have 2: "(\<exists>l \<in> set links. fields_of l = None) \<longrightarrow> getItemData c (Array links) = Inl TypeError"
    using getItemData_loop_throws[of links c "[]"] by simp
  have 3: "getItemData_keys b (Array ks)
       = Inr (List.map_filter (\<lambda>k. map_option (\<lambda>e. (item e, price e)) (map_of (cache b) k)) ks)"
    by (simp add: getItemData_keys_loop_eq)
  show ?thesis using 1 2 3 by simp
qed

theorem getItemData_skips_absent_on_links_witness:
  "getItemData (insertItemData_unbounded (asset ''A'') None 1 [])
     (Array [Plain (asset ''B''), InspectURL (Some (asset ''A'')), Plain (asset ''C'')])
     = Inr [asset ''A'']
   \<and> getItemData (insertItemData_unbounded (asset ''A'') None 1 [])
       (Array [Plain (asset ''A''), InspectURL None]) = Inl TypeError"
proof -
  let ?c = "insertItemData_unbounded (asset ''A'') None 1 []"
  let ?ls = "[Plain (asset ''B''), InspectURL (Some (asset ''A'')), Plain (asset ''C'')]"
  let ?bad = "[Plain (asset ''A''), InspectURL None] :: params link list"
  have h: "\<forall>l \<in> set ?ls. fields_of l \<noteq> None" by simp
  have m: "List.map_filter (cached_item ?c) ?ls = [asset ''A'']"
    by (simp add: List.map_filter_simps cached_item_def insertItemData_unbounded_def
        generateKey_def or_empty_def asset_def)
  have n: "\<exists>l \<in> set ?bad. fields_of l = None" by simp
  from getItemData_skips_absent_on_links[of ?c _ ?ls] h
  have a: "getItemData ?c (Array ?ls) = Inr [asset ''A'']" by (simp only: m) blast
  from getItemData_skips_absent_on_links[of ?c _ ?bad] n
  have b: "getItemData ?c (Array ?bad) = Inl TypeError" by blast
  show ?thesis using a b by simp
qed

text \<open>
  The lookup can fail: an array that holds \<open>null\<close> makes \<open>getItemData\<close> of
  memory_cache.js throw, although the key of the element before it is present; and
  \<open>getItemData\<close> of the bounded class throws on a non-array that cannot be iterated.
\<close>

theorem getItemData_null_element_counterexample:
  "getItemData (insertItemData_unbounded (asset ''A'') None 1 [])
     (Array [Plain (asset ''A''), Nullish]) = Inl TypeError
   \<and> getItemData_keys three_assets NotIterable = Inl TypeError"
  by (simp add: insertItemData_unbounded_def generateKey_def or_empty_def asset_def)

lemma getItemData_example:
  "getItemData (insertItemData_unbounded (asset ''A'') None 1 [])
     (Array [Plain (asset ''B''), InspectURL (Some (asset ''A'')), Plain (asset ''C'')]) = Inr [asset ''A'']"
  by (simp add: insertItemData_unbounded_def generateKey_def or_empty_def asset_def)

lemma insertItemData_unbounded_grows:
  "generateKey it \<notin> fst ` set c \<Longrightarrow> length (insertItemData_unbounded it pr now c) = Suc (length c)"
proof -
  assume "generateKey it \<notin> fst ` set c"
  then have "map fst (insertItemData_unbounded it pr now c) = map fst c @ [generateKey it]"
    by (simp add: insertItemData_unbounded_def AList.update_keys)
  then have "length (map fst (insertItemData_unbounded it pr now c)) = length (map fst c @ [generateKey it])"
    by simp
  then show ?thesis by simp
qed

section \<open>Admission and the API key at the entry point\<close>

text \<open>In the first two revisions a request without the configured key is answered 403 and
  nothing else happens, whatever the parser would make of the body.\<close>

lemma post_inspect_keyed_rejects:
  assumes "\<not> truthy (apiKey req) \<or> apiKey req \<noteq> api_key cfg"
  shows "post_inspect_keyed cfg parse price_of req q = (Json 403 ''Invalid API key'' 8, q)"
  using assms by (auto simp: post_inspect_keyed_def strict_eq_def)

lemma process2_eval: "process 2 (new_queue :: (string \<times> int option, string) queue) =
   \<lparr>priorityQueues = (\<lambda>_. []), users = Map.empty, running = True,
     activeJobsCount = 0, concurrency = 2, processingLock = False, inflight = [],
     pacing = [], finishing = 0, backoff = [], emitted = []\<rparr>"
  by (simp add: process_def start_def checkQueue_def checkQueue_loop.simps new_queue_def
      size_q_def lanes_size_def)

lemmas two_in_flight_eval = two_in_flight_def process2_eval addJob_def Let_def lane_defined_def
  has_user_def set_user_def ordinary_address_in
  checkQueue_def checkQueue_loop.simps size_q_def lanes_size_def dequeue_def

lemma two_in_flight_state:
  "getUserQueuedAmt two_in_flight ''9.9.9.9'' = Amount 2 \<and> length (inflight two_in_flight) = 2
   \<and> size_q two_in_flight = 0 \<and> activeJobsCount two_in_flight = 2"
  by (simp add: two_in_flight_eval getUserQueuedAmt_def)

text \<open>
  C5. The admission checks live in \<open>handleJob\<close>, which \<open>POST /inspect\<close> does not call
  in any revision: the route calls \<open>queue.addJob\<close> directly. With
  \<open>max_simultaneous_requests = 2\<close> and two entries of caller 9.9.9.9 in flight,
  \<open>handleJob\<close> would answer \<open>MaxRequests\<close>, but the route enqueues the third entry and
  the caller's count becomes 3.
\<close>

theorem post_inspect_skips_admission:
  "getUserQueuedAmt two_in_flight ''9.9.9.9'' = Amount 2
   \<and> max_simultaneous_requests demo_config = 2
   \<and> fst (handleJob demo_config True ''9.9.9.9'' [(''L3'', None)] two_in_flight) = Respond MaxRequests
   \<and> fst (post_inspect demo_config Some (\<lambda>b l. None) (demo_request (Str ''secret'')) two_in_flight) = Pending
   \<and> size_q (snd (post_inspect demo_config Some (\<lambda>b l. None) (demo_request (Str ''secret'')) two_in_flight)) = 1
   \<and> getUserQueuedAmt (snd (post_inspect demo_config Some (\<lambda>b l. None) (demo_request (Str ''secret'')) two_in_flight)) ''9.9.9.9'' = Amount 3
   \<and> fst (post_inspect_keyed demo_config Some (\<lambda>b l. None) (demo_request (Str ''secret'')) two_in_flight) = Pending
   \<and> getUserQueuedAmt (snd (post_inspect_keyed demo_config Some (\<lambda>b l. None) (demo_request (Str ''secret'')) two_in_flight)) ''9.9.9.9'' = Amount 3"
  by (simp add: handleJob_def post_inspect_def post_inspect_keyed_def demo_config_def demo_request_def
      strict_eq_def two_in_flight_eval getUserQueuedAmt_def)

theorem post_inspect_skips_admission_witness:
  "fst (handleJob demo_config True ''9.9.9.9'' [(''L3'', None)] two_in_flight) = Respond MaxRequests
   \<and> fst (post_inspect_keyed demo_config Some (\<lambda>b l. None) (demo_request (Str ''secret'')) two_in_flight) = Pending
   \<and> getUserQueuedAmt (snd (post_inspect_keyed demo_config Some (\<lambda>b l. None) (demo_request (Str ''secret'')) two_in_flight)) ''9.9.9.9'' = Amount 3"
  using post_inspect_skips_admission by blast

text \<open>
  C9. In the third revision \<open>POST /inspect\<close> does not look at \<open>apiKey\<close>: a request
  without a key is parsed and enqueued, where the first two revisions answer 403.
\<close>

theorem post_inspect_accepts_missing_key:
  "fst (post_inspect demo_config Some (\<lambda>b l. None) (demo_request Undefined) two_in_flight) = Pending
   \<and> getUserQueuedAmt (snd (post_inspect demo_config Some (\<lambda>b l. None) (demo_request Undefined) two_in_flight)) ''9.9.9.9'' = Amount 3
   \<and> post_inspect_keyed demo_config Some (\<lambda>b l. None) (demo_request Undefined) two_in_flight
       = (Json 403 ''Invalid API key'' 8, two_in_flight)"
  by (simp add: post_inspect_def post_inspect_keyed_def demo_config_def demo_request_def
      strict_eq_def two_in_flight_eval getUserQueuedAmt_def)

theorem post_inspect_accepts_missing_key_witness:
  "fst (post_inspect demo_config Some (\<lambda>b l. None) (demo_request Undefined) two_in_flight) = Pending
   \<and> fst (post_inspect_keyed demo_config Some (\<lambda>b l. None) (demo_request Undefined) two_in_flight)
       = Json 403 ''Invalid API key'' 8"
  using post_inspect_accepts_missing_key by simp

section \<open>One inspect in flight per bot\<close>

lemma distinct_fst_filter: "distinct (map fst xs) \<Longrightarrow> distinct (map fst (filter P xs))"
  by (simp add: distinct_map_filter)

lemma clear_ttl_no_ttl:
  assumes "quiet b"
  shows "(\<forall>(t, due, kind) \<in> set (timers (clear_ttl b)).
            t < next_timer b \<and> kind = ProcessQueueTimer)
         \<and> distinct (map fst (timers (clear_ttl b)))
         \<and> ttlTimeout (clear_ttl b) = None
         \<and> next_timer (clear_ttl b) = next_timer b
         \<and> resolve (clear_ttl b) = resolve b \<and> currentRequest (clear_ttl b) = currentRequest b
         \<and> busy (clear_ttl b) = busy b \<and> settings (clear_ttl b) = settings b
         \<and> activeRequests (clear_ttl b) = activeRequests b"
proof (cases "ttlTimeout b")
  case None
  have "\<And>t due kind. (t, due, kind) \<in> set (timers b) \<Longrightarrow> t < next_timer b \<and> kind = ProcessQueueTimer"
  proof -
    fix t due kind assume m: "(t, due, kind) \<in> set (timers b)"
    then have "t < next_timer b \<and> kind \<noteq> BusyClearTimer \<and> (kind = TtlTimer \<longrightarrow> ttlTimeout b = Some t)"
      using assms by (auto simp: quiet_def)
    then show "t < next_timer b \<and> kind = ProcessQueueTimer" using None by (cases kind) auto
  qed
  then show ?thesis using None assms by (auto simp: clear_ttl_def quiet_def)
next
  case (Some t0)
  have "\<And>t due kind. (t, due, kind) \<in> set (timers b) \<Longrightarrow> t \<noteq> t0 \<Longrightarrow> t < next_timer b \<and> kind = ProcessQueueTimer"
  proof -
    fix t due kind assume m: "(t, due, kind) \<in> set (timers b)" and n: "t \<noteq> t0"
    then have "t < next_timer b \<and> kind \<noteq> BusyClearTimer \<and> (kind = TtlTimer \<longrightarrow> ttlTimeout b = Some t)"
      using assms by (auto simp: quiet_def)
    then show "t < next_timer b \<and> kind = ProcessQueueTimer" using Some n by (cases kind) auto
  qed
  then show ?thesis using Some assms
    by (auto simp: clear_ttl_def clearTimeout_def quiet_def distinct_map_filter)
qed

lemma add_process_timer:
  assumes "one_in_flight b"
  shows "one_in_flight (snd (setTimeout ProcessQueueTimer due b))"
  using assms by (fastforce simp: one_in_flight_def setTimeout_def)

lemma handleRequestError_settles:
  assumes "quiet b"
  shows "one_in_flight (fst (handleRequestError now b))
         \<and> \<not> busy (fst (handleRequestError now b))
         \<and> currentRequest (fst (handleRequestError now b)) = None"
proof -
  let ?c = "clear_ttl b"
  let ?b1 = "?c\<lparr>busy := False, activeRequests := max 0 (activeRequests b - 1)\<rparr>"
  note c = clear_ttl_no_ttl[OF assms]
  have q: "resolve b = None \<longleftrightarrow> currentRequest b = None" using assms by (simp add: quiet_def)
  let ?b2 = "?b1\<lparr>resolve := None, currentRequest := None\<rparr>"
  have o: "one_in_flight ?b2" using c by (auto simp: one_in_flight_def)
  show ?thesis
  proof (cases "resolve b")
    case None
    then have cn: "currentRequest b = None" using q by simp
    have o1: "one_in_flight ?b1" using c None cn by (auto simp: one_in_flight_def)
    have f: "fst (handleRequestError now b)
               = snd (setTimeout ProcessQueueTimer (now + request_delay (settings ?b1) div 4) ?b1)"
      using None cn c by (simp add: handleRequestError_def Let_def)
    show ?thesis unfolding f using add_process_timer[OF o1] c cn by (simp add: setTimeout_def)
  next
    case (Some p)
    then obtain cur where cs: "currentRequest b = Some cur" using q by auto
    have f: "fst (handleRequestError now b)
               = snd (setTimeout ProcessQueueTimer (now + request_delay (settings ?b2) div 4) ?b2)"
      using Some cs c by (simp add: handleRequestError_def Let_def)
    show ?thesis unfolding f using add_process_timer[OF o] by (simp add: setTimeout_def)
  qed
qed


lemma one_in_flight_frame:
  "one_in_flight (b\<lparr>requestQueue := rq\<rparr>) = one_in_flight b"
  "one_in_flight (b\<lparr>lastRequestTime := lt\<rparr>) = one_in_flight b"
  "one_in_flight (b\<lparr>ready := rd\<rparr>) = one_in_flight b"
  "one_in_flight (b\<lparr>isShuttingDown := sd\<rparr>) = one_in_flight b"
  "one_in_flight (b\<lparr>activeRequests := ar\<rparr>) = one_in_flight b"
  by (simp_all add: one_in_flight_def)

lemma idle_is_quiet:
  assumes "one_in_flight b" and "\<not> busy b"
  shows "quiet (b\<lparr>activeRequests := n, busy := True, resolve := Some p, currentRequest := Some r\<rparr>)
         \<and> (\<forall>(t, due, kind) \<in> set (timers b). kind = ProcessQueueTimer)"
proof -
  have cn: "currentRequest b = None" using assms by (simp add: one_in_flight_def)
  have "\<And>t due kind. (t, due, kind) \<in> set (timers b) \<Longrightarrow> t < next_timer b \<and> kind = ProcessQueueTimer"
  proof -
    fix t due kind assume m: "(t, due, kind) \<in> set (timers b)"
    then have "t < next_timer b \<and> (kind = BusyClearTimer \<longrightarrow> busy b)
               \<and> (kind = TtlTimer \<longrightarrow> currentRequest b \<noteq> None)"
      using assms(1) by (auto simp: one_in_flight_def)
    then show "t < next_timer b \<and> kind = ProcessQueueTimer" using assms(2) cn by (cases kind) auto
  qed
  then show ?thesis using assms(1) by (auto simp: quiet_def one_in_flight_def)
qed

lemma executeRequest_inv:
  assumes "one_in_flight b" and "\<not> busy b"
  shows "one_in_flight (fst (executeRequest request now wire_ok b))"
proof -
  let ?b1 = "b\<lparr>activeRequests := activeRequests b + 1, busy := True,
                resolve := Some (r_promise request), currentRequest := Some request\<rparr>"
  note i = idle_is_quiet[OF assms, where n = "activeRequests b + 1" and p = "r_promise request"
      and r = request]
  show ?thesis
  proof (cases wire_ok)
    case False
    then have "fst (executeRequest request now wire_ok b) = fst (handleRequestError now ?b1)"
      by (simp add: executeRequest_def Let_def)
    then show ?thesis using handleRequestError_settles[of ?b1 now] i by simp
  next
    case True
    have "one_in_flight ((snd (setTimeout TtlTimer (now + request_ttl (settings ?b1)) ?b1))
                           \<lparr>ttlTimeout := Some (fst (setTimeout TtlTimer (now + request_ttl (settings ?b1)) ?b1))\<rparr>)"
      using i assms(1) by (fastforce simp: one_in_flight_def setTimeout_def quiet_def)
    then show ?thesis using True by (simp add: executeRequest_def Let_def case_prod_unfold)
  qed
qed

lemma processRequestQueue_inv:
  assumes "one_in_flight b"
  shows "one_in_flight (fst (processRequestQueue now wire_ok b))"
proof (cases "isShuttingDown b \<or> busy b \<or> \<not> ready b \<or> length (requestQueue b) = 0
              \<or> activeRequests b \<ge> max_concurrent_requests (settings b)")
  case True
  then have "processRequestQueue now wire_ok b = (b, [])" by (auto simp: processRequestQueue_def)
  then show ?thesis using assms by simp
next
  case False
  show ?thesis
  proof (cases "canProcessRequest now b")
    case f: False
    then have "fst (processRequestQueue now wire_ok b)
                 = snd (setTimeout ProcessQueueTimer (now + request_delay (settings b)) b)"
      using False by (auto simp: processRequestQueue_def)
    then show ?thesis using add_process_timer[OF assms] by simp
  next
    case t: True
    obtain request rest where rq: "requestQueue b = request # rest"
      using False by (cases "requestQueue b") auto
    let ?b0 = "b\<lparr>requestQueue := rest, lastRequestTime := now\<rparr>"
    have e: "processRequestQueue now wire_ok b = executeRequest request now wire_ok ?b0"
      using False t rq by (auto simp: processRequestQueue_def)
    have "one_in_flight ?b0" "\<not> busy ?b0" using assms False by (simp_all add: one_in_flight_frame)
    from executeRequest_inv[OF this] show ?thesis by (simp add: e)
  qed
qed

lemma clearTimeout_inv:
  assumes "one_in_flight b"
  shows "one_in_flight (clearTimeout t b)"
  using assms by (fastforce simp: one_in_flight_def clearTimeout_def distinct_map_filter)


lemma busy_is_quiet:
  assumes "one_in_flight b" and "currentRequest b \<noteq> None"
  shows "quiet b \<and> busy b"
proof -
  have b: "busy b" using assms by (auto simp: one_in_flight_def)
  have "\<And>t due kind. (t, due, kind) \<in> set (timers b) \<Longrightarrow>
          t < next_timer b \<and> kind \<noteq> BusyClearTimer \<and> (kind = TtlTimer \<longrightarrow> ttlTimeout b = Some t)"
  proof -
    fix t due kind assume m: "(t, due, kind) \<in> set (timers b)"
    then have "t < next_timer b \<and> (kind = BusyClearTimer \<longrightarrow> currentRequest b = None)
               \<and> (kind = TtlTimer \<longrightarrow> ttlTimeout b = Some t)"
      using assms(1) by (auto simp: one_in_flight_def)
    then show "t < next_timer b \<and> kind \<noteq> BusyClearTimer \<and> (kind = TtlTimer \<longrightarrow> ttlTimeout b = Some t)"
      using assms(2) by auto
  qed
  then show ?thesis using assms(1) b by (auto simp: quiet_def one_in_flight_def)
qed

lemma quiet_clearTimeout: "quiet b \<Longrightarrow> quiet (clearTimeout t b)"
  by (fastforce simp: quiet_def clearTimeout_def distinct_map_filter)

lemma handleInspectResponse_match:
  assumes "resolve b = Some p" and "currentRequest b = Some cur"
    and "strict_eq (get_prop (props info) ''itemid'') (r_a cur)"
  shows "handleInspectResponse info now b =
           (snd (setTimeout BusyClearTimer (now + max 0 (request_delay (settings b) - (now - r_time cur)))
                  ((clear_ttl b)\<lparr>resolve := None, currentRequest := None,
                                 activeRequests := activeRequests (clear_ttl b) - 1\<rparr>)),
            [PromiseResolved p (processItemData info (max 0 (request_delay (settings b) - (now - r_time cur))) cur)])"
proof -
  have "(if request_delay (settings b) - (now - r_time cur) < 0 then 0
         else request_delay (settings b) - (now - r_time cur))
          = max 0 (request_delay (settings b) - (now - r_time cur))" by simp
  then show ?thesis using assms by (simp add: handleInspectResponse_def Let_def)
qed

lemma handleInspectResponse_drop:
  assumes "resolve b = None \<or> currentRequest b = None
           \<or> (\<exists>cur. currentRequest b = Some cur \<and> \<not> strict_eq (get_prop (props info) ''itemid'') (r_a cur))"
  shows "handleInspectResponse info now b = (b, [])"
  using assms by (auto simp: handleInspectResponse_def split: option.splits)

lemma handleInspectResponse_inv:
  assumes "one_in_flight b"
  shows "one_in_flight (fst (handleInspectResponse info now b))"
proof (cases "\<exists>p cur. resolve b = Some p \<and> currentRequest b = Some cur
                 \<and> strict_eq (get_prop (props info) ''itemid'') (r_a cur)")
  case False
  then have "handleInspectResponse info now b = (b, [])"
    by (intro handleInspectResponse_drop) (cases "resolve b"; cases "currentRequest b"; auto)
  then show ?thesis using assms by simp
next
  case True
  then obtain p cur where h: "resolve b = Some p" "currentRequest b = Some cur"
    "strict_eq (get_prop (props info) ''itemid'') (r_a cur)" by blast
  have q: "quiet b" "busy b" using busy_is_quiet[OF assms] h(2) by simp_all
  note c = clear_ttl_no_ttl[OF q(1)]
  let ?b2 = "(clear_ttl b)\<lparr>resolve := None, currentRequest := None,
                            activeRequests := activeRequests (clear_ttl b) - 1\<rparr>"
  have "one_in_flight (snd (setTimeout BusyClearTimer due ?b2))" for due
    using c q(2) by (fastforce simp: one_in_flight_def setTimeout_def)
  then show ?thesis by (simp add: handleInspectResponse_match[OF h])
qed

lemma fire_timer_inv:
  assumes "one_in_flight b" and "(t, due, kind) \<in> set (timers b)"
  shows "one_in_flight (fst (fire_timer kind now wire_ok (clearTimeout t b)))"
proof (cases kind)
  case ProcessQueueTimer
  then show ?thesis
    using processRequestQueue_inv[OF clearTimeout_inv[OF assms(1)]] by (simp add: fire_timer_def)
next
  case TtlTimer
  then have "currentRequest b \<noteq> None" using assms by (auto simp: one_in_flight_def)
  then have "quiet b" using busy_is_quiet[OF assms(1)] by simp
  then have "quiet (clearTimeout t b)" by (rule quiet_clearTimeout)
  then show ?thesis using handleRequestError_settles TtlTimer by (simp add: fire_timer_def)
next
  case BusyClearTimer
  have u: "\<And>t' due' kind'. (t', due', kind') \<in> set (timers b) \<Longrightarrow> kind' = BusyClearTimer \<Longrightarrow> t' = t"
    and cn: "currentRequest b = None"
    using assms BusyClearTimer by (auto simp: one_in_flight_def)
  have pq: "\<And>t' due' kind'. (t', due', kind') \<in> set (timers (clearTimeout t b)) \<Longrightarrow>
              t' < next_timer b \<and> kind' = ProcessQueueTimer"
  proof -
    fix t' due' kind' assume m: "(t', due', kind') \<in> set (timers (clearTimeout t b))"
    then have m': "(t', due', kind') \<in> set (timers b)" "t' \<noteq> t" by (auto simp: clearTimeout_def)
    then have "t' < next_timer b \<and> (kind' = TtlTimer \<longrightarrow> currentRequest b \<noteq> None)"
      using assms(1) by (auto simp: one_in_flight_def)
    then show "t' < next_timer b \<and> kind' = ProcessQueueTimer"
      using cn u[OF m'(1)] m'(2) by (cases kind') auto
  qed
  have d: "distinct (map fst (timers (clearTimeout t b)))"
    using assms(1) by (simp add: one_in_flight_def clearTimeout_def distinct_map_filter)
  have r: "resolve b = None" using assms(1) cn by (simp add: one_in_flight_def)
  have "one_in_flight ((clearTimeout t b)\<lparr>busy := False\<rparr>)"
    using pq d cn r by (fastforce simp: one_in_flight_def clearTimeout_def)
  from add_process_timer[OF this] show ?thesis using BusyClearTimer by (simp add: fire_timer_def)
qed

lemma filter_timer_hd:
  assumes "filter (\<lambda>(t', _). t' = t) ts = (t0, due, kind) # rest"
  shows "(t, due, kind) \<in> set ts"
proof -
  have "(t0, due, kind) \<in> set (filter (\<lambda>(t', _). t' = t) ts)" using assms by simp
  then show ?thesis by auto
qed

lemma destroy_inv:
  assumes "one_in_flight b"
  shows "one_in_flight (fst (destroy b))"
proof -
  have "one_in_flight (clear_ttl b)"
  proof (cases "ttlTimeout b")
    case None
    then show ?thesis using assms by (simp add: clear_ttl_def)
  next
    case (Some t0)
    have "\<And>t due kind. (t, due, kind) \<in> set (timers b) \<Longrightarrow> kind = TtlTimer \<Longrightarrow> t = t0"
      using assms Some by (auto simp: one_in_flight_def)
    then have n: "\<And>t due kind. (t, due, kind) \<in> set (timers (clearTimeout t0 b)) \<Longrightarrow> kind \<noteq> TtlTimer"
      by (auto simp: clearTimeout_def)
    have "one_in_flight (clearTimeout t0 b)" using assms by (rule clearTimeout_inv)
    then have "one_in_flight ((clearTimeout t0 b)\<lparr>ttlTimeout := None\<rparr>)"
      using n by (fastforce simp: one_in_flight_def)
    then show ?thesis using Some by (simp add: clear_ttl_def)
  qed
  moreover have "fst (destroy b) = (clear_ttl b)\<lparr>isShuttingDown := True, requestQueue := []\<rparr>"
    by (cases "ttlTimeout b") (simp_all add: destroy_def clear_ttl_def clearTimeout_def)
  ultimately show ?thesis by (simp add: one_in_flight_def)
qed

lemma bot_step_inv:
  assumes "one_in_flight b" and "bot_step e b = Some (b', outs)"
  shows "one_in_flight b'"
proof (cases e)
  case (SendFloatRequest ps pa pd pm promise now)
  have "one_in_flight (fst (sendFloatRequest ps pa pd pm promise now b))"
    using assms(1) add_process_timer[of "b\<lparr>requestQueue := requestQueue b @
        [\<lparr>r_s = ps, r_a = pa, r_d = pd, r_m = pm, r_time = now, r_promise = promise\<rparr>]\<rparr>"]
    by (simp add: sendFloatRequest_def one_in_flight_frame)
  then show ?thesis using assms(2) SendFloatRequest by auto
next
  case (InspectItemInfo info now)
  then show ?thesis using assms handleInspectResponse_inv[of b info now] by auto
next
  case (TimerFired t now wire_ok)
  with assms(2) obtain t0 due kind rest where
    f: "filter (\<lambda>(t', _). t' = t) (timers b) = (t0, due, kind) # rest"
    and s: "(b', outs) = fire_timer kind now wire_ok (clearTimeout t b)"
    by (auto split: list.splits if_splits)
  from fire_timer_inv[OF assms(1) filter_timer_hd[OF f], of now wire_ok] show ?thesis
    using s by (metis fst_conv)
next
  case (ConnectedToGC now wire_ok)
  have "one_in_flight (b\<lparr>ready := True\<rparr>)" using assms(1) by (simp add: one_in_flight_frame)
  from processRequestQueue_inv[OF this, of now wire_ok] show ?thesis
    using assms(2) ConnectedToGC by auto
next
  case DisconnectedFromGC
  then show ?thesis using assms by (auto simp: one_in_flight_frame)
next
  case Destroy
  then show ?thesis using assms destroy_inv[of b] by auto
qed

lemma bot_reachable_inv: "bot_reachable b \<Longrightarrow> one_in_flight b"
proof (induction rule: bot_reachable.induct)
  case (created st)
  show ?case by (simp add: one_in_flight_def new_bot_def)
next
  case (stepped b e b' outs)
  then show ?case using bot_step_inv by blast
qed

subsection \<open>A concrete run of a bot\<close>

lemma ready_bot_eval:
  "ready_bot = \<lparr>settings = default_settings, busy = False, ready = True, isShuttingDown = False,
     requestQueue = [], activeRequests = 0, resolve = None, currentRequest = None,
     ttlTimeout = None, lastRequestTime = 0, timers = [], next_timer = 0\<rparr>"
  by (simp add: ready_bot_def new_bot_def processRequestQueue_def)

lemma queued_bot_eval:
  "queued_bot = \<lparr>settings = default_settings, busy = False, ready = True, isShuttingDown = False,
     requestQueue = [demo_inspect], activeRequests = 0, resolve = None, currentRequest = None,
     ttlTimeout = None, lastRequestTime = 0, timers = [(0, 2010, ProcessQueueTimer)],
     next_timer = Suc 0\<rparr>"
  by (simp add: queued_bot_def ready_bot_eval sendFloatRequest_def setTimeout_def demo_inspect_def)

lemma dispatch_step:
  "bot_step (TimerFired 0 2010 True) queued_bot =
     Some (\<lparr>settings = default_settings, busy = True, ready = True, isShuttingDown = False,
             requestQueue = [], activeRequests = 1, resolve = Some 42,
             currentRequest = Some demo_inspect, ttlTimeout = Some (Suc 0), lastRequestTime = 2010,
             timers = [(Suc 0, 32010, TtlTimer)], next_timer = Suc (Suc 0)\<rparr>,
           [Wire_inspectItem (Str ''7'') (Str ''10'') (Str ''3'')])"
  by (simp add: queued_bot_eval fire_timer_def clearTimeout_def processRequestQueue_def
      canProcessRequest_def default_settings_def executeRequest_def setTimeout_def Let_def
      demo_inspect_def)

lemma dispatched_bot_eval:
  "dispatched_bot = \<lparr>settings = default_settings, busy = True, ready = True, isShuttingDown = False,
             requestQueue = [], activeRequests = 1, resolve = Some 42,
             currentRequest = Some demo_inspect, ttlTimeout = Some (Suc 0), lastRequestTime = 2010,
             timers = [(Suc 0, 32010, TtlTimer)], next_timer = Suc (Suc 0)\<rparr>"
  unfolding dispatched_bot_def dispatch_step by simp

lemma answer_step:
  "bot_step (InspectItemInfo (demo_info ''10'') 2300) dispatched_bot =
     Some (\<lparr>settings = default_settings, busy = True, ready = True, isShuttingDown = False,
             requestQueue = [], activeRequests = 0, resolve = None,
             currentRequest = None, ttlTimeout = None, lastRequestTime = 2010,
             timers = [(2, 3000, BusyClearTimer)], next_timer = 3\<rparr>,
           [PromiseResolved 42 (processItemData (demo_info ''10'') 700 demo_inspect)])"
proof -
  have h: "resolve dispatched_bot = Some 42" "currentRequest dispatched_bot = Some demo_inspect"
    "strict_eq (get_prop (props (demo_info ''10'')) ''itemid'') (r_a demo_inspect)"
    by (simp_all add: dispatched_bot_eval demo_info_def demo_inspect_def get_prop_def strict_eq_def)
  show ?thesis
    by (simp add: handleInspectResponse_match[OF h])
       (simp add: dispatched_bot_eval clear_ttl_def clearTimeout_def setTimeout_def
          default_settings_def demo_inspect_def)
qed

lemma answered_bot_eval:
  "answered_bot = \<lparr>settings = default_settings, busy = True, ready = True, isShuttingDown = False,
             requestQueue = [], activeRequests = 0, resolve = None,
             currentRequest = None, ttlTimeout = None, lastRequestTime = 2010,
             timers = [(2, 3000, BusyClearTimer)], next_timer = 3\<rparr>"
  unfolding answered_bot_def answer_step by simp

lemma release_step:
  "bot_step (TimerFired 2 3000 True) answered_bot =
     Some (\<lparr>settings = default_settings, busy = False, ready = True, isShuttingDown = False,
             requestQueue = [], activeRequests = 0, resolve = None,
             currentRequest = None, ttlTimeout = None, lastRequestTime = 2010,
             timers = [(3, 3010, ProcessQueueTimer)], next_timer = 4\<rparr>, [])"
  by (simp add: answered_bot_eval fire_timer_def clearTimeout_def setTimeout_def)

lemma demo_bots_reachable:
  "bot_reachable queued_bot \<and> bot_reachable dispatched_bot \<and> bot_reachable answered_bot"
proof -
  have 0: "bot_reachable (new_bot default_settings)" by (rule bot_reachable.created)
  have "bot_step (ConnectedToGC 0 True) (new_bot default_settings)
          = Some (ready_bot, snd (the (bot_step (ConnectedToGC 0 True) (new_bot default_settings))))"
    by (simp add: ready_bot_def)
  from bot_reachable.stepped[OF 0 this] have 1: "bot_reachable ready_bot" .
  have "bot_step (SendFloatRequest (Str ''7'') (Str ''10'') (Str ''3'') (Str ''0'') 42 2000) ready_bot
          = Some (queued_bot, snd (the (bot_step
              (SendFloatRequest (Str ''7'') (Str ''10'') (Str ''3'') (Str ''0'') 42 2000) ready_bot)))"
    by (simp add: queued_bot_def)
  from bot_reachable.stepped[OF 1 this] have 2: "bot_reachable queued_bot" .
  have "bot_step (TimerFired 0 2010 True) queued_bot
          = Some (dispatched_bot, [Wire_inspectItem (Str ''7'') (Str ''10'') (Str ''3'')])"
    unfolding dispatched_bot_eval by (rule dispatch_step)
  from bot_reachable.stepped[OF 2 this] have 3: "bot_reachable dispatched_bot" .
  have "bot_step (InspectItemInfo (demo_info ''10'') 2300) dispatched_bot
          = Some (answered_bot, [PromiseResolved 42 (processItemData (demo_info ''10'') 700 demo_inspect)])"
    unfolding answered_bot_eval by (rule answer_step)
  from bot_reachable.stepped[OF 3 this] have 4: "bot_reachable answered_bot" .
  show ?thesis using 2 3 4 by simp
qed

section \<open>The shape of an inspect response\<close>

lemma get_set_prop: "get_prop (set_prop k v ob) k' = (if k' = k then v else get_prop ob k')"
  by (simp add: get_prop_def set_prop_def AList.update_conv')

lemma get_delete_prop: "get_prop (delete_prop k ob) k' = (if k' = k then Undefined else get_prop ob k')"
  by (simp add: get_prop_def delete_prop_def AList.delete_conv')

lemma keys_delete_prop: "k \<notin> fst ` set (delete_prop k ob)"
  by (simp add: delete_prop_def AList.delete_notin_dom)

lemma rename_sticker_props:
  "get_prop (rename_sticker st) ''stickerId'' = get_prop st ''sticker_id''
   \<and> ''sticker_id'' \<notin> fst ` set (rename_sticker st)
   \<and> (k \<noteq> ''stickerId'' \<and> k \<noteq> ''sticker_id'' \<longrightarrow> get_prop (rename_sticker st) k = get_prop st k)"
  by (simp add: rename_sticker_def get_set_prop get_delete_prop keys_delete_prop)

lemma processItemData_props:
  "get_prop (props (iteminfo (processItemData info dl cur))) k =
     (if k = ''paintwear'' then Undefined
      else if k = ''floatvalue'' then get_prop (props info) ''paintwear''
      else if k = ''paintseed'' then
        (if truthy (get_prop (props info) ''paintseed'') then get_prop (props info) ''paintseed'' else Num 0)
      else if k = ''m'' then r_m cur
      else if k = ''d'' then r_d cur
      else if k = ''a'' then r_a cur
      else if k = ''s'' then r_s cur
      else get_prop (props info) k)"
  by (simp add: processItemData_def Let_def get_set_prop get_delete_prop)

lemma processItemData_rest:
  "''paintwear'' \<notin> fst ` set (props (iteminfo (processItemData info dl cur)))
   \<and> stickers (iteminfo (processItemData info dl cur)) = map_option (map rename_sticker) (stickers info)
   \<and> delay (processItemData info dl cur) = dl"
  by (simp add: processItemData_def Let_def keys_delete_prop)

text \<open>
  C6. When an \<open>inspectItemInfo\<close> event matches the request the bot holds, the bot resolves
  that request's promise with exactly one record \<open>{iteminfo, delay}\<close> in which:
  \<open>floatvalue\<close> is the coordinator's \<open>paintwear\<close> and the property \<open>paintwear\<close> is gone;
  \<open>paintseed\<close> is the coordinator's value if truthy and 0 otherwise, so never null;
  every sticker has \<open>stickerId\<close> set to its former \<open>sticker_id\<close>, which is gone;
  \<open>a, d, s, m\<close> are those of the request, whatever the coordinator sent; and
  \<open>delay = max(0, request_delay - (now - request.time))\<close>.
\<close>

theorem inspect_response_shape:
  assumes "resolve b = Some p" and "currentRequest b = Some cur"
    and "strict_eq (get_prop (props info) ''itemid'') (r_a cur)"
  shows "\<exists>dat. snd (handleInspectResponse info now b) = [PromiseResolved p dat]
     \<and> get_prop (props (iteminfo dat)) ''floatvalue'' = get_prop (props info) ''paintwear''
     \<and> ''paintwear'' \<notin> fst ` set (props (iteminfo dat))
     \<and> get_prop (props (iteminfo dat)) ''paintseed''
          = (if truthy (get_prop (props info) ''paintseed'') then get_prop (props info) ''paintseed'' else Num 0)
     \<and> get_prop (props (iteminfo dat)) ''paintseed'' \<noteq> Null
     \<and> stickers (iteminfo dat) = map_option (map rename_sticker) (stickers info)
     \<and> (\<forall>st. get_prop (rename_sticker st) ''stickerId'' = get_prop st ''sticker_id''
              \<and> ''sticker_id'' \<notin> fst ` set (rename_sticker st))
     \<and> get_prop (props (iteminfo dat)) ''a'' = r_a cur
     \<and> get_prop (props (iteminfo dat)) ''d'' = r_d cur
     \<and> get_prop (props (iteminfo dat)) ''s'' = r_s cur
     \<and> get_prop (props (iteminfo dat)) ''m'' = r_m cur
     \<and> delay dat = max 0 (request_delay (settings b) - (now - r_time cur))"
proof -
  let ?dl = "max 0 (request_delay (settings b) - (now - r_time cur))"
  let ?dat = "processItemData info ?dl cur"
  have o: "snd (handleInspectResponse info now b) = [PromiseResolved p ?dat]"
    by (simp add: handleInspectResponse_match[OF assms])
  have ps: "get_prop (props (iteminfo ?dat)) ''paintseed'' \<noteq> Null"
    by (cases "get_prop (props info) ''paintseed''") (simp_all add: processItemData_props)
  have st: "\<forall>st. get_prop (rename_sticker st) ''stickerId'' = get_prop st ''sticker_id''
              \<and> ''sticker_id'' \<notin> fst ` set (rename_sticker st)"
    using rename_sticker_props by blast
  show ?thesis
    using o ps st processItemData_rest[of info ?dl cur]
    by (intro exI[of _ ?dat]) (simp add: processItemData_props)
qed

theorem inspect_response_shape_witness:
  "resolve dispatched_bot = Some 42 \<and> currentRequest dispatched_bot = Some demo_inspect
   \<and> strict_eq (get_prop (props (demo_info ''10'')) ''itemid'') (r_a demo_inspect)
   \<and> get_prop (props (demo_info ''10'')) ''a'' = Str ''999''
   \<and> (\<exists>dat. snd (handleInspectResponse (demo_info ''10'') 2300 dispatched_bot) = [PromiseResolved 42 dat]
         \<and> get_prop (props (iteminfo dat)) ''floatvalue'' = Num (1 / 4)
         \<and> ''paintwear'' \<notin> fst ` set (props (iteminfo dat))
         \<and> get_prop (props (iteminfo dat)) ''paintseed'' = Num 0
         \<and> stickers (iteminfo dat) = Some [[(''slot'', Num 0), (''stickerId'', Num 5)]]
         \<and> get_prop (props (iteminfo dat)) ''a'' = Str ''10''
         \<and> get_prop (props (iteminfo dat)) ''d'' = Str ''3''
         \<and> get_prop (props (iteminfo dat)) ''s'' = Str ''7''
         \<and> get_prop (props (iteminfo dat)) ''m'' = Str ''0''
         \<and> delay dat = 700)"
proof -
  have h: "resolve dispatched_bot = Some 42" "currentRequest dispatched_bot = Some demo_inspect"
    "strict_eq (get_prop (props (demo_info ''10'')) ''itemid'') (r_a demo_inspect)"
    by (simp_all add: dispatched_bot_eval demo_info_def demo_inspect_def get_prop_def strict_eq_def)
  have g: "get_prop (props (demo_info ''10'')) ''paintwear'' = Num (1 / 4)"
    "get_prop (props (demo_info ''10'')) ''paintseed'' = Null"
    "get_prop (props (demo_info ''10'')) ''a'' = Str ''999''"
    "map_option (map rename_sticker) (stickers (demo_info ''10''))
       = Some [[(''slot'', Num 0), (''stickerId'', Num 5)]]"
    by (simp_all add: demo_info_def get_prop_def rename_sticker_def set_prop_def delete_prop_def
        AList.delete_eq)
  have r: "r_a demo_inspect = Str ''10''" "r_d demo_inspect = Str ''3''" "r_s demo_inspect = Str ''7''"
    "r_m demo_inspect = Str ''0''" "r_time demo_inspect = 2000"
    "request_delay (settings dispatched_bot) = 1000"
    by (simp_all add: demo_inspect_def dispatched_bot_eval default_settings_def)
  from inspect_response_shape[OF h, of 2300] obtain dat where
    d: "snd (handleInspectResponse (demo_info ''10'') 2300 dispatched_bot) = [PromiseResolved 42 dat]"
     "get_prop (props (iteminfo dat)) ''floatvalue'' = get_prop (props (demo_info ''10'')) ''paintwear''"
     "''paintwear'' \<notin> fst ` set (props (iteminfo dat))"
     "get_prop (props (iteminfo dat)) ''paintseed''
          = (if truthy (get_prop (props (demo_info ''10'')) ''paintseed'')
             then get_prop (props (demo_info ''10'')) ''paintseed'' else Num 0)"
     "stickers (iteminfo dat) = map_option (map rename_sticker) (stickers (demo_info ''10''))"
     "get_prop (props (iteminfo dat)) ''a'' = r_a demo_inspect"
     "get_prop (props (iteminfo dat)) ''d'' = r_d demo_inspect"
     "get_prop (props (iteminfo dat)) ''s'' = r_s demo_inspect"
     "get_prop (props (iteminfo dat)) ''m'' = r_m demo_inspect"
     "delay dat = max 0 (request_delay (settings dispatched_bot) - (2300 - r_time demo_inspect))"
    by blast
  have "snd (handleInspectResponse (demo_info ''10'') 2300 dispatched_bot) = [PromiseResolved 42 dat]
         \<and> get_prop (props (iteminfo dat)) ''floatvalue'' = Num (1 / 4)
         \<and> ''paintwear'' \<notin> fst ` set (props (iteminfo dat))
         \<and> get_prop (props (iteminfo dat)) ''paintseed'' = Num 0
         \<and> stickers (iteminfo dat) = Some [[(''slot'', Num 0), (''stickerId'', Num 5)]]
         \<and> get_prop (props (iteminfo dat)) ''a'' = Str ''10''
         \<and> get_prop (props (iteminfo dat)) ''d'' = Str ''3''
         \<and> get_prop (props (iteminfo dat)) ''s'' = Str ''7''
         \<and> get_prop (props (iteminfo dat)) ''m'' = Str ''0''
         \<and> delay dat = 700"
    using d g r by simp
  then show ?thesis using h g(3) by blast
qed

section \<open>Responses that do not match\<close>

text \<open>
  C7. An \<open>inspectItemInfo\<close> event is dropped, leaving the bot's state as it was and
  settling no promise, when the bot holds no request (no \<open>resolve\<close> or no
  \<open>currentRequest\<close>) or when the event's \<open>itemid\<close> is not strictly equal to the held
  request's \<open>a\<close>. The handler never rejects, and it resolves exactly when a request is
  held and the \<open>itemid\<close> equals its \<open>a\<close>; then the held promise is resolved and the bot
  holds no request any more.
\<close>

theorem mismatched_response_dropped:
  "((resolve b = None \<or> currentRequest b = None
       \<or> (\<exists>cur. currentRequest b = Some cur \<and> \<not> strict_eq (get_prop (props info) ''itemid'') (r_a cur)))
      \<longrightarrow> handleInspectResponse info now b = (b, []))
   \<and> ((\<exists>p dat. PromiseResolved p dat \<in> set (snd (handleInspectResponse info now b)))
        \<longleftrightarrow> (\<exists>p cur. resolve b = Some p \<and> currentRequest b = Some cur
               \<and> strict_eq (get_prop (props info) ''itemid'') (r_a cur)))
   \<and> (\<forall>p. PromiseRejected p \<notin> set (snd (handleInspectResponse info now b)))
   \<and> (\<forall>p cur. resolve b = Some p \<and> currentRequest b = Some cur
          \<and> strict_eq (get_prop (props info) ''itemid'') (r_a cur)
        \<longrightarrow> (\<exists>dat. snd (handleInspectResponse info now b) = [PromiseResolved p dat])
            \<and> currentRequest (fst (handleInspectResponse info now b)) = None
            \<and> resolve (fst (handleInspectResponse info now b)) = None)"
proof (cases "\<exists>p cur. resolve b = Some p \<and> currentRequest b = Some cur
                 \<and> strict_eq (get_prop (props info) ''itemid'') (r_a cur)")
  case True
  then obtain p cur where h: "resolve b = Some p" "currentRequest b = Some cur"
    "strict_eq (get_prop (props info) ''itemid'') (r_a cur)" by blast
  note m = handleInspectResponse_match[OF h, of now]
  show ?thesis using h by (auto simp: m setTimeout_def)
next
  case False
  then have d: "resolve b = None \<or> currentRequest b = None
       \<or> (\<exists>cur. currentRequest b = Some cur \<and> \<not> strict_eq (get_prop (props info) ''itemid'') (r_a cur))"
    by (cases "resolve b"; cases "currentRequest b"; auto)
  have "handleInspectResponse info now b = (b, [])" using d by (rule handleInspectResponse_drop)
  then show ?thesis using False by auto
qed

theorem mismatched_response_dropped_witness:
  "handleInspectResponse (demo_info ''99'') 2200 dispatched_bot = (dispatched_bot, [])
   \<and> (\<exists>dat. snd (handleInspectResponse (demo_info ''10'') 2300 dispatched_bot) = [PromiseResolved 42 dat])
   \<and> currentRequest (fst (handleInspectResponse (demo_info ''10'') 2300 dispatched_bot)) = None
   \<and> handleInspectResponse (demo_info ''10'') 2300 answered_bot = (answered_bot, [])"
proof -
  have h: "resolve dispatched_bot = Some 42" "currentRequest dispatched_bot = Some demo_inspect"
    "strict_eq (get_prop (props (demo_info ''10'')) ''itemid'') (r_a demo_inspect)"
    "\<not> strict_eq (get_prop (props (demo_info ''99'')) ''itemid'') (r_a demo_inspect)"
    "currentRequest answered_bot = None"
    by (simp_all add: dispatched_bot_eval answered_bot_eval demo_info_def demo_inspect_def
        get_prop_def strict_eq_def)
  from mismatched_response_dropped[of dispatched_bot "demo_info ''99''" 2200] h(2,4)
  have a: "handleInspectResponse (demo_info ''99'') 2200 dispatched_bot = (dispatched_bot, [])"
    by blast
  from mismatched_response_dropped[of dispatched_bot "demo_info ''10''" 2300] h(1,2,3)
  have b: "\<exists>dat. snd (handleInspectResponse (demo_info ''10'') 2300 dispatched_bot) = [PromiseResolved 42 dat]"
    and c: "currentRequest (fst (handleInspectResponse (demo_info ''10'') 2300 dispatched_bot)) = None"
    by blast+
  from mismatched_response_dropped[of answered_bot "demo_info ''10''" 2300] h(5)
  have d: "handleInspectResponse (demo_info ''10'') 2300 answered_bot = (answered_bot, [])"
    by blast
  show ?thesis using a b c d by simp
qed

section \<open>Dispatch waits for the previous inspect\<close>

lemma clear_ttl_fields:
  "resolve (clear_ttl b) = resolve b \<and> currentRequest (clear_ttl b) = currentRequest b
   \<and> busy (clear_ttl b) = busy b \<and> settings (clear_ttl b) = settings b"
  by (cases "ttlTimeout b") (simp_all add: clear_ttl_def clearTimeout_def)

lemma handleRequestError_idle:
  "\<not> busy (fst (handleRequestError now b))
   \<and> (\<forall>ow a d. Wire_inspectItem ow a d \<notin> set (snd (handleRequestError now b)))"
  by (cases "resolve b"; cases "currentRequest b")
     (simp_all add: handleRequestError_def Let_def setTimeout_def clear_ttl_fields)

lemma handleRequestError_rejects:
  assumes "resolve b = Some p" and "currentRequest b = Some cur"
  shows "snd (handleRequestError now b) = [PromiseRejected (r_promise cur)]
         \<and> currentRequest (fst (handleRequestError now b)) = None"
  using assms by (simp add: handleRequestError_def Let_def setTimeout_def clear_ttl_fields)

lemma executeRequest_wire:
  assumes "Wire_inspectItem ow a d \<in> set (snd (executeRequest r now wire_ok b))"
  shows "busy (fst (executeRequest r now wire_ok b))
         \<and> currentRequest (fst (executeRequest r now wire_ok b)) = Some r"
proof (cases wire_ok)
  case True
  then show ?thesis by (simp add: executeRequest_def Let_def setTimeout_def)
next
  case False
  then have "snd (executeRequest r now wire_ok b)
               = snd (handleRequestError now (b\<lparr>activeRequests := activeRequests b + 1, busy := True,
                        resolve := Some (r_promise r), currentRequest := Some r\<rparr>))"
    by (simp add: executeRequest_def Let_def)
  then show ?thesis using assms handleRequestError_idle by metis
qed

lemma processRequestQueue_busy: "busy b \<Longrightarrow> processRequestQueue now wire_ok b = (b, [])"
  by (simp add: processRequestQueue_def)

lemma processRequestQueue_wire:
  assumes "Wire_inspectItem ow a d \<in> set (snd (processRequestQueue now wire_ok b))"
  shows "\<not> busy b \<and> busy (fst (processRequestQueue now wire_ok b))
         \<and> (\<exists>r. currentRequest (fst (processRequestQueue now wire_ok b)) = Some r)"
proof -
  have nb: "\<not> busy b" using assms processRequestQueue_busy[of b now wire_ok] by auto
  have "\<exists>r b0. processRequestQueue now wire_ok b = executeRequest r now wire_ok b0"
    using assms
    by (auto simp: processRequestQueue_def setTimeout_def split: if_splits list.splits)
  then obtain r b0 where e: "processRequestQueue now wire_ok b = executeRequest r now wire_ok b0"
    by blast
  from executeRequest_wire[of ow a d r now wire_ok b0] assms show ?thesis using nb by (simp add: e)
qed

text \<open>
  C8. In every state a bot's dispatcher can reach: \<open>processRequestQueue\<close> does nothing
  while \<open>busy\<close>; a bot that is not busy holds no request; a step that calls
  \<open>inspectItem\<close> starts from a state that is not busy and holds no request, and leaves
  the bot busy holding the new one; \<open>busy\<close> goes from true to false only when the
  deadline timer of the held request fires (the request is rejected in that step) or when
  the busy-clear timer fires, no earlier than it is due, the request having been answered;
  and a step that resolves a request leaves the bot busy, holding none, with the busy-clear
  timer due at the time of the answer plus the returned delay.
\<close>

theorem one_inspect_in_flight:
  assumes "bot_reachable b"
  shows "(busy b \<longrightarrow> processRequestQueue now wire_ok b = (b, []))
     \<and> (\<not> busy b \<longrightarrow> currentRequest b = None \<and> resolve b = None)
     \<and> (bot_step e b = Some (b', outs) \<and> (\<exists>ow a d. Wire_inspectItem ow a d \<in> set outs)
          \<longrightarrow> \<not> busy b \<and> currentRequest b = None \<and> busy b' \<and> (\<exists>r. currentRequest b' = Some r))
     \<and> (bot_step e b = Some (b', outs) \<and> busy b \<and> \<not> busy b'
          \<longrightarrow> (\<exists>t tm ok due. e = TimerFired t tm ok \<and> due \<le> tm
                 \<and> (((t, due, TtlTimer) \<in> set (timers b) \<and> currentRequest b \<noteq> None
                       \<and> currentRequest b' = None \<and> (\<exists>p. outs = [PromiseRejected p]))
                     \<or> ((t, due, BusyClearTimer) \<in> set (timers b) \<and> currentRequest b = None))))
     \<and> (bot_step e b = Some (b', outs) \<and> (\<exists>p dat. PromiseResolved p dat \<in> set outs)
          \<longrightarrow> busy b \<and> busy b' \<and> currentRequest b' = None
              \<and> (\<exists>info tm p dat t. e = InspectItemInfo info tm \<and> outs = [PromiseResolved p dat]
                     \<and> (t, tm + delay dat, BusyClearTimer) \<in> set (timers b')))"
proof -
  have inv: "one_in_flight b" using assms by (rule bot_reachable_inv)
  have i1: "\<not> busy b \<longrightarrow> currentRequest b = None \<and> resolve b = None"
    using inv by (auto simp: one_in_flight_def)
  have 1: "busy b \<longrightarrow> processRequestQueue now wire_ok b = (b, [])"
    by (simp add: processRequestQueue_busy)
  have 3: "bot_step e b = Some (b', outs) \<and> (\<exists>ow a d. Wire_inspectItem ow a d \<in> set outs)
          \<longrightarrow> \<not> busy b \<and> currentRequest b = None \<and> busy b' \<and> (\<exists>r. currentRequest b' = Some r)"
  proof
    assume h: "bot_step e b = Some (b', outs) \<and> (\<exists>ow a d. Wire_inspectItem ow a d \<in> set outs)"
    then obtain ow a d where w: "Wire_inspectItem ow a d \<in> set outs" by blast
    show "\<not> busy b \<and> currentRequest b = None \<and> busy b' \<and> (\<exists>r. currentRequest b' = Some r)"
    proof (cases e)
      case (SendFloatRequest ps pa pd pm promise tm)
      then have "outs = snd (sendFloatRequest ps pa pd pm promise tm b)" using h by auto
      then show ?thesis using w by (auto simp: sendFloatRequest_def split: if_splits)
    next
      case (InspectItemInfo info tm)
      then have "outs = snd (handleInspectResponse info tm b)" using h by auto
      then show ?thesis using w
        by (auto simp: handleInspectResponse_def Let_def split: option.splits if_splits)
    next
      case (TimerFired t tm ok)
      with h obtain t0 due kind rest where
        f: "filter (\<lambda>(t', _). t' = t) (timers b) = (t0, due, kind) # rest"
        and s: "(b', outs) = fire_timer kind tm ok (clearTimeout t b)"
        by (auto split: list.splits if_splits)
      show ?thesis
      proof (cases kind)
        case TtlTimer
        then have "outs = snd (handleRequestError tm (clearTimeout t b))"
          using s by (simp add: fire_timer_def) (metis snd_conv)
        then show ?thesis using w handleRequestError_idle by blast
      next
        case BusyClearTimer
        then have "outs = []" using s by (simp add: fire_timer_def)
        then show ?thesis using w by simp
      next
        case ProcessQueueTimer
        then have p: "processRequestQueue tm ok (clearTimeout t b) = (b', outs)"
          using s by (simp add: fire_timer_def)
        then have "Wire_inspectItem ow a d \<in> set (snd (processRequestQueue tm ok (clearTimeout t b)))"
          using w by simp
        from processRequestQueue_wire[OF this] have "\<not> busy b" "busy b'" "\<exists>r. currentRequest b' = Some r"
          using p by (simp_all add: clearTimeout_def)
        then show ?thesis using i1 by simp
      qed
    next
      case (ConnectedToGC tm ok)
      then have p: "processRequestQueue tm ok (b\<lparr>ready := True\<rparr>) = (b', outs)" using h by auto
      then have "Wire_inspectItem ow a d \<in> set (snd (processRequestQueue tm ok (b\<lparr>ready := True\<rparr>)))"
        using w by simp
      from processRequestQueue_wire[OF this] have "\<not> busy b" "busy b'" "\<exists>r. currentRequest b' = Some r"
        using p by simp_all
      then show ?thesis using i1 by simp
    next
      case DisconnectedFromGC
      then show ?thesis using h w by auto
    next
      case Destroy
      then show ?thesis using h w by (auto simp: destroy_def)
    qed
  qed
  have 4: "bot_step e b = Some (b', outs) \<and> busy b \<and> \<not> busy b'
          \<longrightarrow> (\<exists>t tm ok due. e = TimerFired t tm ok \<and> due \<le> tm
                 \<and> (((t, due, TtlTimer) \<in> set (timers b) \<and> currentRequest b \<noteq> None
                       \<and> currentRequest b' = None \<and> (\<exists>p. outs = [PromiseRejected p]))
                     \<or> ((t, due, BusyClearTimer) \<in> set (timers b) \<and> currentRequest b = None)))"
  proof
    assume h: "bot_step e b = Some (b', outs) \<and> busy b \<and> \<not> busy b'"
    show "\<exists>t tm ok due. e = TimerFired t tm ok \<and> due \<le> tm
                 \<and> (((t, due, TtlTimer) \<in> set (timers b) \<and> currentRequest b \<noteq> None
                       \<and> currentRequest b' = None \<and> (\<exists>p. outs = [PromiseRejected p]))
                     \<or> ((t, due, BusyClearTimer) \<in> set (timers b) \<and> currentRequest b = None))"
    proof (cases e)
      case (SendFloatRequest ps pa pd pm promise tm)
      then have "b' = fst (sendFloatRequest ps pa pd pm promise tm b)" using h by auto
      then show ?thesis using h by (auto simp: sendFloatRequest_def setTimeout_def split: if_splits)
    next
      case (InspectItemInfo info tm)
      then have "b' = fst (handleInspectResponse info tm b)" using h by auto
      then show ?thesis using h
        by (auto simp: handleInspectResponse_def Let_def setTimeout_def clear_ttl_fields
            split: option.splits if_splits)
    next
      case (TimerFired t tm ok)
      with h obtain t0 due kind rest where
        f: "filter (\<lambda>(t', _). t' = t) (timers b) = (t0, due, kind) # rest"
        and d: "due \<le> tm"
        and s: "(b', outs) = fire_timer kind tm ok (clearTimeout t b)"
        by (auto split: list.splits if_splits)
      have m: "(t, due, kind) \<in> set (timers b)" using f by (rule filter_timer_hd)
      show ?thesis
      proof (cases kind)
        case TtlTimer
        then have cn: "currentRequest b \<noteq> None" using inv m by (auto simp: one_in_flight_def)
        then obtain cur where c: "currentRequest b = Some cur" by auto
        then obtain p where r: "resolve b = Some p" using inv by (auto simp: one_in_flight_def)
        have e': "(b', outs) = handleRequestError tm (clearTimeout t b)"
          using s TtlTimer by (simp add: fire_timer_def)
        have "resolve (clearTimeout t b) = Some p" "currentRequest (clearTimeout t b) = Some cur"
          using c r by (simp_all add: clearTimeout_def)
        from handleRequestError_rejects[OF this, of tm]
        have "outs = [PromiseRejected (r_promise cur)]" "currentRequest b' = None"
          using e' by (metis snd_conv, metis fst_conv)
        then show ?thesis using TimerFired d m TtlTimer cn by blast
      next
        case BusyClearTimer
        then have "currentRequest b = None" using inv m by (auto simp: one_in_flight_def)
        then show ?thesis using TimerFired d m BusyClearTimer by blast
      next
        case ProcessQueueTimer
        then have "(b', outs) = processRequestQueue tm ok (clearTimeout t b)"
          using s by (simp add: fire_timer_def)
        moreover have "busy (clearTimeout t b)" using h by (simp add: clearTimeout_def)
        ultimately have "b' = clearTimeout t b" using processRequestQueue_busy by (metis fst_conv)
        then show ?thesis using h by (simp add: clearTimeout_def)
      qed
    next
      case (ConnectedToGC tm ok)
      then have "(b', outs) = processRequestQueue tm ok (b\<lparr>ready := True\<rparr>)" using h by auto
      moreover have "busy (b\<lparr>ready := True\<rparr>)" using h by simp
      ultimately have "b' = b\<lparr>ready := True\<rparr>" using processRequestQueue_busy by (metis fst_conv)
      then show ?thesis using h by simp
    next
      case DisconnectedFromGC
      then show ?thesis using h by auto
    next
      case Destroy
      then have "b' = fst (destroy b)" using h by auto
      then show ?thesis using h by (simp add: destroy_def clear_ttl_fields)
    qed
  qed
  have 5: "bot_step e b = Some (b', outs) \<and> (\<exists>p dat. PromiseResolved p dat \<in> set outs)
          \<longrightarrow> busy b \<and> busy b' \<and> currentRequest b' = None
              \<and> (\<exists>info tm p dat t. e = InspectItemInfo info tm \<and> outs = [PromiseResolved p dat]
                     \<and> (t, tm + delay dat, BusyClearTimer) \<in> set (timers b'))"
  proof
    assume h: "bot_step e b = Some (b', outs) \<and> (\<exists>p dat. PromiseResolved p dat \<in> set outs)"
    then obtain p0 dat0 where w: "PromiseResolved p0 dat0 \<in> set outs" by blast
    show "busy b \<and> busy b' \<and> currentRequest b' = None
              \<and> (\<exists>info tm p dat t. e = InspectItemInfo info tm \<and> outs = [PromiseResolved p dat]
                     \<and> (t, tm + delay dat, BusyClearTimer) \<in> set (timers b'))"
    proof (cases e)
      case (SendFloatRequest ps pa pd pm promise tm)
      then have "outs = snd (sendFloatRequest ps pa pd pm promise tm b)" using h by auto
      then show ?thesis using w by (auto simp: sendFloatRequest_def split: if_splits)
    next
      case (InspectItemInfo info tm)
      then have e': "(b', outs) = handleInspectResponse info tm b" using h by auto
      have "\<exists>p cur. resolve b = Some p \<and> currentRequest b = Some cur
                 \<and> strict_eq (get_prop (props info) ''itemid'') (r_a cur)"
      proof (rule ccontr)
        assume "\<not> ?thesis"
        then have "resolve b = None \<or> currentRequest b = None
           \<or> (\<exists>cur. currentRequest b = Some cur \<and> \<not> strict_eq (get_prop (props info) ''itemid'') (r_a cur))"
          by (cases "resolve b"; cases "currentRequest b"; auto)
        then have "handleInspectResponse info tm b = (b, [])" by (rule handleInspectResponse_drop)
        then show False using e' w by simp
      qed
      then obtain p cur where m: "resolve b = Some p" "currentRequest b = Some cur"
        "strict_eq (get_prop (props info) ''itemid'') (r_a cur)" by blast
      have bb: "busy b" using busy_is_quiet[OF inv] m(2) by simp
      note hm = handleInspectResponse_match[OF m, of tm]
      let ?dl = "max 0 (request_delay (settings b) - (tm - r_time cur))"
      have o: "outs = [PromiseResolved p (processItemData info ?dl cur)]"
        using e' hm by simp
      have dd: "delay (processItemData info ?dl cur) = ?dl" by (simp add: processItemData_rest)
      have b'': "b' = snd (setTimeout BusyClearTimer (tm + ?dl)
                  ((clear_ttl b)\<lparr>resolve := None, currentRequest := None,
                                 activeRequests := activeRequests (clear_ttl b) - 1\<rparr>))"
        using e' hm by simp
      have t: "(next_timer (clear_ttl b), tm + ?dl, BusyClearTimer) \<in> set (timers b')"
        unfolding b'' by (simp add: setTimeout_def)
      have "busy b'" "currentRequest b' = None"
        unfolding b'' using bb by (simp_all add: setTimeout_def clear_ttl_fields)
      then show ?thesis using bb InspectItemInfo o t dd by metis
    next
      case (TimerFired t tm ok)
      with h obtain kind where
        s: "fire_timer kind tm ok (clearTimeout t b) = (b', outs)"
        by (auto split: list.splits if_splits)
      have "PromiseResolved p0 dat0 \<notin> set (snd (fire_timer kind tm ok bx))" for bx
        by (cases kind; cases "resolve bx"; cases "currentRequest bx"; cases ok)
           (auto simp: fire_timer_def handleRequestError_def Let_def setTimeout_def clear_ttl_fields
              processRequestQueue_def executeRequest_def split: list.splits)
      then show ?thesis using s w by (metis snd_conv)
    next
      case (ConnectedToGC tm ok)
      then have s: "(b', outs) = processRequestQueue tm ok (b\<lparr>ready := True\<rparr>)" using h by auto
      have "PromiseResolved p0 dat0 \<notin> set (snd (processRequestQueue tm ok bx))" for bx
        by (cases ok)
           (auto simp: handleRequestError_def Let_def setTimeout_def clear_ttl_fields
              processRequestQueue_def executeRequest_def split: list.splits)
      then show ?thesis using s w by (metis snd_conv)
    next
      case DisconnectedFromGC
      then show ?thesis using h w by auto
    next
      case Destroy
      then show ?thesis using h w by (auto simp: destroy_def)
    qed
  qed
  show ?thesis using 1 i1 3 4 5 by blast
qed

theorem one_inspect_in_flight_witness:
  "bot_reachable queued_bot \<and> bot_reachable dispatched_bot \<and> bot_reachable answered_bot
   \<and> bot_step (TimerFired 0 2010 True) queued_bot
        = Some (dispatched_bot, [Wire_inspectItem (Str ''7'') (Str ''10'') (Str ''3'')])
   \<and> \<not> busy queued_bot \<and> currentRequest queued_bot = None \<and> busy dispatched_bot
   \<and> processRequestQueue 2500 True dispatched_bot = (dispatched_bot, [])
   \<and> bot_step (InspectItemInfo (demo_info ''10'') 2300) dispatched_bot
        = Some (answered_bot, [PromiseResolved 42 (processItemData (demo_info ''10'') 700 demo_inspect)])
   \<and> busy answered_bot \<and> currentRequest answered_bot = None
   \<and> (2, 3000, BusyClearTimer) \<in> set (timers answered_bot)
   \<and> bot_step (TimerFired 2 3000 True) answered_bot = Some (released_bot, [])
   \<and> \<not> busy released_bot"
proof -
  note r = demo_bots_reachable
  have s1: "bot_step (TimerFired 0 2010 True) queued_bot
        = Some (dispatched_bot, [Wire_inspectItem (Str ''7'') (Str ''10'') (Str ''3'')])"
    unfolding dispatched_bot_eval by (rule dispatch_step)
  have s2: "bot_step (InspectItemInfo (demo_info ''10'') 2300) dispatched_bot
        = Some (answered_bot, [PromiseResolved 42 (processItemData (demo_info ''10'') 700 demo_inspect)])"
    unfolding answered_bot_eval by (rule answer_step)
  have s3: "bot_step (TimerFired 2 3000 True) answered_bot = Some (released_bot, [])"
    unfolding released_bot_def release_step by simp
  have nb: "\<not> busy released_bot" unfolding released_bot_def release_step by simp
  have ba: "busy answered_bot" by (simp add: answered_bot_eval)
  from one_inspect_in_flight[OF r[THEN conjunct1], where e = "TimerFired 0 2010 True"
      and b' = dispatched_bot and outs = "[Wire_inspectItem (Str ''7'') (Str ''10'') (Str ''3'')]"] s1
  have a: "\<not> busy queued_bot \<and> currentRequest queued_bot = None \<and> busy dispatched_bot"
    by simp
  from one_inspect_in_flight[OF r[THEN conjunct2, THEN conjunct1],
      where e = "InspectItemInfo (demo_info ''10'') 2300" and b' = answered_bot
      and outs = "[PromiseResolved 42 (processItemData (demo_info ''10'') 700 demo_inspect)]"
      and now = 2500 and wire_ok = True] s2 a
  have b: "processRequestQueue 2500 True dispatched_bot = (dispatched_bot, [])"
    and c: "busy answered_bot \<and> currentRequest answered_bot = None"
    by simp_all
  from one_inspect_in_flight[OF r[THEN conjunct2, THEN conjunct2],
      where e = "TimerFired 2 3000 True" and b' = released_bot and outs = "[]"] s3 ba nb
  have d: "(2, 3000, BusyClearTimer) \<in> set (timers answered_bot)"
    by (simp add: answered_bot_eval)
  show ?thesis using r s1 s2 s3 nb a b c d by simp
qed

section \<open>Where the earlier revision of Queue differs\<close>

lemma dequeue_earlier_skips_lane_4:
  "dequeue_earlier ((\<lambda>_. [])(4 := [x])) = None \<and> dequeue ((\<lambda>_. [])(4 := [x])) = Some (x, (\<lambda>_. [])(4 := [x], 4 := []))"
  by (simp add: dequeue_earlier_def dequeue_def)

lemma catch_callback_earlier_requeues_at_once:
  assumes "attempts (count_attempt err job) \<noteq> max_attempts job"
  shows "backoff (catch_callback_earlier job err q) = backoff q
         \<and> priorityQueues (catch_callback_earlier job err q) (priority job)
             = count_attempt err job # priorityQueues q (priority job)"
  using assms count_attempt_fields[of err job]
  by (simp add: catch_callback_earlier_def Let_def requeue_def)

end
